theory Spec2Isabelle
  imports Main "HOL-Library.Monad_Syntax"
begin

unbundle bit_operations_syntax

section \<open>Bit-formulas and bit-vectors\<close>

text \<open>
  The two scripts \<^verbatim>\<open>gradilac_sat.py\<close> and \<^verbatim>\<open>t642_sat.py\<close> build boolean circuits
  through the external library autosat. A bit-formula is modelled as a term: a literal
  (a Python \<^verbatim>\<open>bool\<close> or \<^verbatim>\<open>inst.get_constant(v)\<close>), a free variable (one element of
  \<^verbatim>\<open>inst.new_vars(n)\<close>), the results of \<^verbatim>\<open>^\<close> and \<^verbatim>\<open>&\<close>, and the two outputs of one
  instance of the traced function \<^verbatim>\<open>full_adder\<close>. An assignment of the solver gives
  every variable a truth value, and every other formula the value of its operation.
\<close>

datatype bitf =
    BConst bool
  | BVar nat
  | BXor bitf bitf
  | BAnd bitf bitf
  | BSum bitf bitf bitf
  | BCarry bitf bitf bitf

text \<open>
  \<^verbatim>\<open>def full_adder(a, b, carry_in): r = a + b + carry_in; return r & 1, (r & 2) >> 1\<close>,
  on Python booleans (the function autosat traces to get the gate's truth table).
\<close>

definition full_adder :: "bool \<Rightarrow> bool \<Rightarrow> bool \<Rightarrow> bool \<times> bool" where
  "full_adder a b carry_in =
     (let r = (of_bool a + of_bool b + of_bool carry_in :: int)
      in (r AND 1 \<noteq> 0, drop_bit 1 (r AND 2) \<noteq> 0))"

fun eval_bit :: "(nat \<Rightarrow> bool) \<Rightarrow> bitf \<Rightarrow> bool" where
  "eval_bit m (BConst v) = v"
| "eval_bit m (BVar n) = m n"
| "eval_bit m (BXor a b) = (eval_bit m a \<noteq> eval_bit m b)"
| "eval_bit m (BAnd a b) = (eval_bit m a \<and> eval_bit m b)"
| "eval_bit m (BSum a b c) = fst (full_adder (eval_bit m a) (eval_bit m b) (eval_bit m c))"
| "eval_bit m (BCarry a b c) = snd (full_adder (eval_bit m a) (eval_bit m b) (eval_bit m c))"

text \<open>
  Modelled from the spec: \<^verbatim>\<open>decode\<close> (autosat's \<^verbatim>\<open>decode_number\<close>, an external
  library) maps each bit-formula through the assignment and reassembles a little-endian
  integer.
\<close>

fun decode :: "(nat \<Rightarrow> bool) \<Rightarrow> bitf list \<Rightarrow> int" where
  "decode m [] = 0"
| "decode m (b # bs) = of_bool (eval_bit m b) + 2 * decode m bs"

text \<open>
  \<^verbatim>\<open>inibits(inst, l, ini)\<close>: the constant bit-vector of width \<open>l\<close>, bit \<open>i\<close> being
  \<^verbatim>\<open>(ini>>i)&1\<close>. Python's \<^verbatim>\<open>>>\<close> and \<^verbatim>\<open>&\<close> on unbounded integers are \<open>drop_bit\<close>
  and \<open>AND\<close> on \<open>int\<close> (two's complement for negative values).
\<close>

definition inibits :: "nat \<Rightarrow> int \<Rightarrow> bitf list" where
  "inibits l ini = map (\<lambda>i. BConst (drop_bit i ini AND 1 \<noteq> 0)) [0..<l]"

section \<open>Symbolic arithmetic\<close>

text \<open>The traced \<^verbatim>\<open>full_adder\<close> applied to bit-formulas: one gate, two outputs.\<close>

definition full_adder_sat :: "bitf \<Rightarrow> bitf \<Rightarrow> bitf \<Rightarrow> bitf \<times> bitf" where
  "full_adder_sat a b carry_in = (BSum a b carry_in, BCarry a b carry_in)"

text \<open>
  \<^verbatim>\<open>add\<close>: the loop over \<^verbatim>\<open>zip(a, b)\<close> threads the carry and appends one sum bit per
  position; the last carry is dropped. The assertion on the lengths is the \<open>None\<close>
  branch.
\<close>

fun add_loop :: "bitf list \<Rightarrow> bitf list \<Rightarrow> bitf \<Rightarrow> bitf list" where
  "add_loop (a_bit # a) (b_bit # b) carry =
     (let (sum_bit, carry') = full_adder_sat a_bit b_bit carry
      in sum_bit # add_loop a b carry')"
| "add_loop _ _ carry = []"

definition add :: "bitf list \<Rightarrow> bitf list \<Rightarrow> bitf list option" where
  "add a b = (if length a \<noteq> length b then None else Some (add_loop a b (BConst False)))"

text \<open>\<^verbatim>\<open>xor\<close> and \<^verbatim>\<open>and_\<close> of the source, element-wise over \<^verbatim>\<open>zip(a, b)\<close>.\<close>

definition xor_bv :: "bitf list \<Rightarrow> bitf list \<Rightarrow> bitf list option" where
  "xor_bv a b = (if length a \<noteq> length b then None else Some (map (\<lambda>(i, j). BXor i j) (zip a b)))"

definition and_bv :: "bitf list \<Rightarrow> bitf list \<Rightarrow> bitf list option" where
  "and_bv a b = (if length a \<noteq> length b then None else Some (map (\<lambda>(i, j). BAnd i j) (zip a b)))"

text \<open>
  \<^verbatim>\<open>mul\<close>: \<^verbatim>\<open>result = [a[0] & bit for bit in b]\<close>, then for \<open>i\<close> in
  \<^verbatim>\<open>range(1, len(a))\<close> the addend \<^verbatim>\<open>[a[i] & bit for bit in b[:-i]]\<close> is added into
  \<^verbatim>\<open>result[i:]\<close>. \<^verbatim>\<open>a[0]\<close> is read once for each bit of \<^verbatim>\<open>b\<close>, so on two empty
  lists it is never read and the result is the empty list.
\<close>

fun mul_loop :: "bitf list \<Rightarrow> bitf list \<Rightarrow> nat list \<Rightarrow> bitf list \<Rightarrow> bitf list option" where
  "mul_loop a b [] result = Some result"
| "mul_loop a b (i # is) result =
     do {
       let addend = map (\<lambda>bit. BAnd (a ! i) bit) (take (length b - i) b);
       r \<leftarrow> add (drop i result) addend;
       mul_loop a b is (take i result @ r)
     }"

definition mul :: "bitf list \<Rightarrow> bitf list \<Rightarrow> bitf list option" where
  "mul a b =
     (if length a \<noteq> length b then None
      else mul_loop a b [1..<length a] (map (\<lambda>bit. BAnd (a ! 0) bit) b))"

section \<open>The mixing core\<close>

text \<open>
  The module-level values derived from the parameter \<^verbatim>\<open>bits\<close>:
  \<^verbatim>\<open>bits2 = bits>>1\<close>, \<^verbatim>\<open>bmask = (1<<bits)-1\<close>, and the two round constants built by
  \<^verbatim>\<open>for i in range(bits2): rawbits5 <<= 2; rawbits5 |= 0x1; rawbitsA <<= 2; rawbitsA |= 0x2\<close>.
\<close>

definition bits2 :: "nat \<Rightarrow> nat" where
  "bits2 bits = drop_bit 1 bits"

definition bmask :: "nat \<Rightarrow> int" where
  "bmask bits = push_bit bits 1 - 1"

fun rawbits_loop :: "nat \<Rightarrow> int \<times> int \<Rightarrow> int \<times> int" where
  "rawbits_loop 0 (r5, rA) = (r5, rA)"
| "rawbits_loop (Suc n) (r5, rA) = rawbits_loop n (push_bit 2 r5 OR 1, push_bit 2 rA OR 2)"

definition rawbits5 :: "nat \<Rightarrow> int" where
  "rawbits5 bits = fst (rawbits_loop (bits2 bits) (0, 0))"

definition rawbitsA :: "nat \<Rightarrow> int" where
  "rawbitsA bits = snd (rawbits_loop (bits2 bits) (0, 0))"

text \<open>
  \<^verbatim>\<open>prvhash_core_calc\<close> on Python integers, statement by statement. In
  \<^verbatim>\<open>seed>>bits2 | seed<<bits2\<close> the shifts bind tighter than \<^verbatim>\<open>|\<close>.
\<close>

definition prvhash_core_calc :: "nat \<Rightarrow> int \<Rightarrow> int \<Rightarrow> int \<Rightarrow> int \<times> int \<times> int \<times> int" where
  "prvhash_core_calc bits seed lcg h =
     (let seed1 = seed * (lcg * 2 + 1);
          seed2 = seed1 AND bmask bits;
          rs1 = drop_bit (bits2 bits) seed2 OR push_bit (bits2 bits) seed2;
          rs = rs1 AND bmask bits;
          h1 = h + (rs + rawbitsA bits);
          h2 = h1 AND bmask bits;
          lcg1 = lcg + (seed2 + rawbits5 bits);
          lcg2 = lcg1 AND bmask bits;
          seed3 = seed2 XOR h2;
          out = lcg2 XOR rs
      in (seed3, lcg2, h2, out))"

text \<open>
  The constant bit-vectors \<^verbatim>\<open>BITR5 = inibits(inst, bits, rawbits5)\<close> and
  \<^verbatim>\<open>BITRA = inibits(inst, bits, rawbitsA)\<close>, and \<^verbatim>\<open>prvhash_core_sat\<close>. The multiplier
  \<^verbatim>\<open>[True] + lcg[:-1]\<close> is the literal \<^verbatim>\<open>True\<close> followed by all bits of \<^verbatim>\<open>lcg\<close> but the
  last; \<^verbatim>\<open>seed[bits2:] + seed[:bits2]\<close> is the rotation. Each failed assertion of
  \<^verbatim>\<open>mul\<close>, \<^verbatim>\<open>add\<close> or \<^verbatim>\<open>xor\<close> ends the step with \<open>None\<close>.
\<close>

definition BITR5 :: "nat \<Rightarrow> bitf list" where
  "BITR5 bits = inibits bits (rawbits5 bits)"

definition BITRA :: "nat \<Rightarrow> bitf list" where
  "BITRA bits = inibits bits (rawbitsA bits)"

definition prvhash_core_sat ::
  "nat \<Rightarrow> bitf list \<Rightarrow> bitf list \<Rightarrow> bitf list
     \<Rightarrow> (bitf list \<times> bitf list \<times> bitf list \<times> bitf list) option" where
  "prvhash_core_sat bits seed lcg h =
     do {
       seed1 \<leftarrow> mul seed (BConst True # butlast lcg);
       let rs = drop (bits2 bits) seed1 @ take (bits2 bits) seed1;
       t1 \<leftarrow> add rs (BITRA bits);
       h1 \<leftarrow> add h t1;
       t2 \<leftarrow> add seed1 (BITR5 bits);
       lcg1 \<leftarrow> add lcg t2;
       seed2 \<leftarrow> xor_bv seed1 h1;
       out \<leftarrow> xor_bv lcg1 rs;
       Some (seed2, lcg1, h1, out)
     }"

text \<open>
  The step as the specification words it, for comparison with the code:
  \<open>rotate_halves\<close> exchanges the low and the high half-width bit groups of a word of
  width \<open>w\<close>, and \<open>spec_step\<close> is the recurrence of the specification with every
  sum and product taken modulo \<open>2 ^ w\<close>.
\<close>

definition rotate_halves :: "nat \<Rightarrow> int \<Rightarrow> int" where
  "rotate_halves w x = (x mod 2 ^ (w div 2)) * 2 ^ (w div 2) + x div 2 ^ (w div 2)"

definition spec_step ::
  "nat \<Rightarrow> int \<Rightarrow> int \<Rightarrow> int \<Rightarrow> int \<Rightarrow> int \<Rightarrow> int \<times> int \<times> int \<times> int" where
  "spec_step w const_A const_B seed lcg h =
     (let seed' = (seed * (2 * lcg + 1)) mod 2 ^ w;
          rotated = rotate_halves w seed';
          hash_word' = (h + rotated + const_A) mod 2 ^ w;
          lcg' = (lcg + seed' + const_B) mod 2 ^ w
      in (seed' XOR hash_word', lcg', hash_word', lcg' XOR rotated))"

section \<open>Calls of the core by the harness\<close>

text \<open>
  Every call of the core in both scripts has the form
  \<^verbatim>\<open>seed, lcg, h[i], out = core(seed, lcg, h[i])\<close>. \<open>core_call\<close> is that statement for
  either core: reading \<^verbatim>\<open>h[i]\<close> out of range raises, and so does a failed assertion
  inside the symbolic core. The model keeps, beside the program's own variables, a trace
  of the calls made so far: for each call the lane (0 for the main core, 1 to 4 for the
  firewall cores of \<^verbatim>\<open>t642_sat.py\<close>), the index of the hash element passed, the three
  arguments and the four results. The trace is only written, never read, by the model.
\<close>

datatype 'w call =
  Call (call_lane: nat) (call_index: nat)
       (call_seed_in: 'w) (call_lcg_in: 'w) (call_hash_in: 'w)
       (call_seed: 'w) (call_lcg: 'w) (call_hash: 'w) (call_out: 'w)

type_synonym 'w core = "'w \<Rightarrow> 'w \<Rightarrow> 'w \<Rightarrow> ('w \<times> 'w \<times> 'w \<times> 'w) option"

definition calc_core :: "nat \<Rightarrow> int core" where
  "calc_core bits seed lcg h = Some (prvhash_core_calc bits seed lcg h)"

definition core_call ::
  "'w core \<Rightarrow> nat \<Rightarrow> 'w \<Rightarrow> 'w \<Rightarrow> 'w list \<Rightarrow> nat \<Rightarrow> 'w call list
     \<Rightarrow> ('w \<times> 'w \<times> 'w list \<times> 'w \<times> 'w call list) option" where
  "core_call core lane seed lcg h i log =
     (if length h \<le> i then None
      else do {
        (seed', lcg', hw, out) \<leftarrow> core seed lcg (h ! i);
        Some (seed', lcg', h[i := hw], out,
              log @ [Call lane i seed lcg (h ! i) seed' lcg' hw out])
      })"

text \<open>
  A sequence of calls on one state \<open>(seed, lcg, h)\<close>, the hash element of each call given
  by a list of indices.
\<close>

fun call_seq ::
  "'w core \<Rightarrow> nat list \<Rightarrow> 'w \<times> 'w \<times> 'w list \<Rightarrow> 'w call list
     \<Rightarrow> (('w \<times> 'w \<times> 'w list) \<times> 'w call list) option" where
  "call_seq core [] st log = Some (st, log)"
| "call_seq core (i # is) (seed, lcg, h) log =
     do {
       (seed', lcg', h', out, log') \<leftarrow> core_call core 0 seed lcg h i log;
       call_seq core is (seed', lcg', h') log'
     }"

definition call_result :: "'w call \<Rightarrow> 'w \<times> 'w \<times> 'w \<times> 'w" where
  "call_result c = (call_seed c, call_lcg c, call_hash c, call_out c)"

section \<open>The harness of gradilac_sat.py (Variant A)\<close>

text \<open>
  The state of the main core: \<^verbatim>\<open>seed\<close>, \<^verbatim>\<open>lcg\<close>, the hash array \<^verbatim>\<open>h\<close> and the counter
  \<^verbatim>\<open>x\<close> (\<^verbatim>\<open>calc_seed\<close>, \<^verbatim>\<open>calc_lcg\<close>, \<^verbatim>\<open>calc_h\<close>, \<^verbatim>\<open>calc_x\<close> in the concrete run).
  \<open>main_call\<close> is the statement
  \<^verbatim>\<open>seed, lcg, h[x % hc], out = core(seed, lcg, h[x % hc])\<close>; \<^verbatim>\<open>x % hc\<close> raises when
  \<^verbatim>\<open>hc\<close> is zero. \<open>next_x\<close> is \<^verbatim>\<open>x += 1\<close>.
\<close>

type_synonym 'w mstate = "'w \<times> 'w \<times> 'w list \<times> nat"

definition hash_index :: "nat \<Rightarrow> nat \<Rightarrow> nat option" where
  "hash_index x hc = (if hc = 0 then None else Some (x mod hc))"

definition main_call ::
  "'w core \<Rightarrow> nat \<Rightarrow> 'w mstate \<Rightarrow> 'w call list \<Rightarrow> ('w mstate \<times> 'w \<times> 'w call list) option" where
  "main_call core hc st log =
     (case st of (seed, lcg, h, x) \<Rightarrow>
        do {
          i \<leftarrow> hash_index x hc;
          (seed', lcg', h', out, log') \<leftarrow> core_call core 0 seed lcg h i log;
          Some ((seed', lcg', h', x), out, log')
        })"

definition next_x :: "'w mstate \<Rightarrow> 'w mstate" where
  "next_x st = (case st of (seed, lcg, h, x) \<Rightarrow> (seed, lcg, h, x + 1))"

text \<open>
  \<^verbatim>\<open>for i in range(5): <call>\<close>: the counter is not advanced in this loop.
\<close>

fun init_loop ::
  "'w core \<Rightarrow> nat \<Rightarrow> nat \<Rightarrow> 'w mstate \<Rightarrow> 'w call list \<Rightarrow> ('w mstate \<times> 'w call list) option" where
  "init_loop core hc 0 st log = Some (st, log)"
| "init_loop core hc (Suc n) st log =
     do {
       (st', out1, log') \<leftarrow> main_call core hc st log;
       init_loop core hc n st' log'
     }"

text \<open>\<^verbatim>\<open>for i in range(n): <call>; x += 1\<close>.\<close>

fun fill_loop ::
  "'w core \<Rightarrow> nat \<Rightarrow> nat \<Rightarrow> 'w mstate \<Rightarrow> 'w call list \<Rightarrow> ('w mstate \<times> 'w call list) option" where
  "fill_loop core hc 0 st log = Some (st, log)"
| "fill_loop core hc (Suc n) st log =
     do {
       (st', out1, log') \<leftarrow> main_call core hc st log;
       fill_loop core hc n (next_x st') log'
     }"

text \<open>
  The initial hash array of the concrete run:
  \<^verbatim>\<open>for i in range(hc): calc_h.append(hcv[i]&bmask if i < hci else 0)\<close>; \<^verbatim>\<open>hcv[i]\<close>
  raises beyond the end of \<^verbatim>\<open>hcv\<close>.
\<close>

definition calc_h_init :: "nat \<Rightarrow> nat \<Rightarrow> int list \<Rightarrow> nat \<Rightarrow> int list option" where
  "calc_h_init bits hci hcv hc =
     those (map (\<lambda>i. if i < hci
                      then (if length hcv \<le> i then None else Some (hcv ! i AND bmask bits))
                      else Some 0) [0..<hc])"

text \<open>
  The concrete and the symbolic half of each script run the same loops, the first on
  Python integers with \<^verbatim>\<open>prvhash_core_calc\<close>, \<^verbatim>\<open>^\<close> and \<^verbatim>\<open>v&bmask\<close>, the second on
  bit-vectors with \<^verbatim>\<open>prvhash_core_sat\<close>, \<^verbatim>\<open>xor\<close> and \<^verbatim>\<open>inibits(inst,bits,v)\<close>. The loops
  are written once over these three operations and instantiated twice.
\<close>

record 'w engine =
  e_core :: "'w core"
  e_xor :: "'w \<Rightarrow> 'w \<Rightarrow> 'w option"
  e_const :: "int \<Rightarrow> 'w"

definition calc_engine :: "nat \<Rightarrow> int engine" where
  "calc_engine bits =
     \<lparr>e_core = calc_core bits, e_xor = (\<lambda>a b. Some (a XOR b)), e_const = (\<lambda>v. v AND bmask bits)\<rparr>"

definition sat_engine :: "nat \<Rightarrow> bitf list engine" where
  "sat_engine bits =
     \<lparr>e_core = prvhash_core_sat bits, e_xor = xor_bv, e_const = inibits bits\<rparr>"

text \<open>
  The observation loop: two calls, each followed by \<^verbatim>\<open>x += 1\<close>, then the exclusive or of
  the two outputs is observed. The concrete run appends it to \<^verbatim>\<open>obs\<close>; the symbolic run
  constrains each of its bits, \<^verbatim>\<open>b.make_equal(bool((obs[k] >> i) & 1))\<close>.
\<close>

fun obs_loop ::
  "'w engine \<Rightarrow> nat \<Rightarrow> (nat \<Rightarrow> 'w \<Rightarrow> 'a \<Rightarrow> 'a option) \<Rightarrow> nat list \<Rightarrow> 'w mstate \<Rightarrow> 'a
     \<Rightarrow> 'w call list \<Rightarrow> ('w mstate \<times> 'a \<times> 'w call list) option" where
  "obs_loop eng hc observe [] st acc log = Some (st, acc, log)"
| "obs_loop eng hc observe (k # ks) st acc log =
     do {
       (st1, out1, log1) \<leftarrow> main_call (e_core eng) hc st log;
       (st2, out2, log2) \<leftarrow> main_call (e_core eng) hc (next_x st1) log1;
       out \<leftarrow> e_xor eng out1 out2;
       acc' \<leftarrow> observe k out acc;
       obs_loop eng hc observe ks (next_x st2) acc' log2
     }"

definition calc_observe :: "nat \<Rightarrow> int \<Rightarrow> int list \<Rightarrow> int list option" where
  "calc_observe i out obs = Some (obs @ [out])"

definition gradilac_calc ::
  "nat \<Rightarrow> nat \<Rightarrow> int \<Rightarrow> int \<Rightarrow> int list \<Rightarrow> nat \<Rightarrow> nat \<Rightarrow> (int list \<times> int call list) option" where
  "gradilac_calc bits hci seed_i lcg_i hcv hc num_obs =
     do {
       calc_h \<leftarrow> calc_h_init bits hci hcv hc;
       (st1, log1) \<leftarrow> init_loop (calc_core bits) hc 5
                        (seed_i AND bmask bits, lcg_i AND bmask bits, calc_h, 0) [];
       (st2, log2) \<leftarrow> fill_loop (calc_core bits) hc (hc + 1) st1 log1;
       (st3, obs, log3) \<leftarrow> obs_loop (calc_engine bits) hc calc_observe [0..<num_obs] st2 [] log2;
       Some (obs, log3)
     }"

text \<open>
  The symbolic run. \<^verbatim>\<open>inst.new_vars(n)\<close> gives \<open>n\<close> fresh variables; they are numbered
  in the order of allocation. Of the hash array the first \<^verbatim>\<open>hci\<close> elements are fresh
  variables and the others the constant zero. A constraint \<^verbatim>\<open>b.make_equal(v)\<close> is the
  pair \<open>(b, v)\<close>; \<^verbatim>\<open>obs[k]\<close> is read once per bit of \<^verbatim>\<open>out\<close>, so it raises only when
  \<^verbatim>\<open>out\<close> has a bit.
\<close>

definition new_vars :: "nat \<Rightarrow> nat \<Rightarrow> bitf list" where
  "new_vars first n = map BVar [first..<first + n]"

definition sat_h_init :: "nat \<Rightarrow> nat \<Rightarrow> nat \<Rightarrow> nat \<Rightarrow> bitf list list" where
  "sat_h_init bits hci hc first =
     map (\<lambda>i. if i < hci then new_vars (first + i * bits) bits else inibits bits 0) [0..<hc]"

definition make_equal_bits :: "bitf list \<Rightarrow> int list \<Rightarrow> nat \<Rightarrow> (bitf \<times> bool) list option" where
  "make_equal_bits out obs k =
     (if out = [] then Some []
      else if length obs \<le> k then None
      else Some (map (\<lambda>(i, b). (b, drop_bit i (obs ! k) AND 1 \<noteq> 0)) (enumerate 0 out)))"

definition sat_observe ::
  "int list \<Rightarrow> nat \<Rightarrow> bitf list \<Rightarrow> (bitf \<times> bool) list \<Rightarrow> (bitf \<times> bool) list option" where
  "sat_observe obs k out cons = do { c \<leftarrow> make_equal_bits out obs k; Some (cons @ c) }"

definition gradilac_sat ::
  "nat \<Rightarrow> nat \<Rightarrow> nat \<Rightarrow> nat \<Rightarrow> int list
     \<Rightarrow> ((bitf \<times> bool) list \<times> bitf list call list) option" where
  "gradilac_sat bits hci hc num_obs obs =
     do {
       (st1, log1) \<leftarrow> init_loop (prvhash_core_sat bits) hc 5
                        (new_vars 0 bits, new_vars bits bits, sat_h_init bits hci hc (2 * bits), 0) [];
       (st2, log2) \<leftarrow> fill_loop (prvhash_core_sat bits) hc (hc + 1) st1 log1;
       (st3, cons, log3) \<leftarrow>
          obs_loop (sat_engine bits) hc (sat_observe obs) [0..<num_obs] st2 [] log2;
       Some (cons, log3)
     }"

section \<open>The harness of t642_sat.py (Variant B)\<close>

text \<open>
  The nonce loop: on odd \<open>i\<close>, while \<^verbatim>\<open>ivpos < ivlen\<close>, the word \<^verbatim>\<open>iv[ivpos]\<close> is mixed
  into \<^verbatim>\<open>seed\<close> and \<^verbatim>\<open>lcg\<close> and \<^verbatim>\<open>ivpos\<close> advances; then the call and \<^verbatim>\<open>x += 1\<close>.
  \<^verbatim>\<open>iv[ivpos]\<close> raises beyond the end of \<^verbatim>\<open>iv\<close>.
\<close>

definition inject ::
  "'w engine \<Rightarrow> nat \<Rightarrow> int list \<Rightarrow> nat \<Rightarrow> 'w mstate \<Rightarrow> nat \<Rightarrow> ('w mstate \<times> nat) option" where
  "inject eng ivlen iv i st ivpos =
     (case st of (seed, lcg, h, x) \<Rightarrow>
        if i AND 1 = 1 \<and> ivpos < ivlen
        then (if length iv \<le> ivpos then None
              else do {
                seed' \<leftarrow> e_xor eng seed (e_const eng (iv ! ivpos));
                lcg' \<leftarrow> e_xor eng lcg (e_const eng (iv ! ivpos));
                Some ((seed', lcg', h, x), ivpos + 1)
              })
        else Some (st, ivpos))"

fun iv_loop ::
  "'w engine \<Rightarrow> nat \<Rightarrow> nat \<Rightarrow> int list \<Rightarrow> nat list \<Rightarrow> 'w mstate \<Rightarrow> nat \<Rightarrow> 'w call list
     \<Rightarrow> ('w mstate \<times> nat \<times> 'w call list) option" where
  "iv_loop eng hc ivlen iv [] st ivpos log = Some (st, ivpos, log)"
| "iv_loop eng hc ivlen iv (i # is) st ivpos log =
     do {
       (st1, ivpos1) \<leftarrow> inject eng ivlen iv i st ivpos;
       (st2, out1, log') \<leftarrow> main_call (e_core eng) hc st1 log;
       iv_loop eng hc ivlen iv is (next_x st2) ivpos1 log'
     }"

text \<open>
  The four firewall cores: \<^verbatim>\<open>(seed1, lcg1)\<close> to \<^verbatim>\<open>(seed4, lcg4)\<close>, the array \<^verbatim>\<open>h2\<close> of
  five words they share, and the counter \<^verbatim>\<open>x2\<close>. One round: a call of the main core and
  \<^verbatim>\<open>x += 1\<close>, the output mixed into \<^verbatim>\<open>seed4\<close>, one call of each firewall core on
  \<^verbatim>\<open>h2[(x2+0)%5]\<close> to \<^verbatim>\<open>h2[(x2+3)%5]\<close>, and \<^verbatim>\<open>x2 += 1\<close>.
\<close>

type_synonym 'w fwstate = "('w \<times> 'w) \<times> ('w \<times> 'w) \<times> ('w \<times> 'w) \<times> ('w \<times> 'w) \<times> 'w list \<times> nat"

definition fw_round ::
  "'w engine \<Rightarrow> nat \<Rightarrow> 'w mstate \<Rightarrow> 'w fwstate \<Rightarrow> 'w call list
     \<Rightarrow> ('w mstate \<times> 'w fwstate \<times> ('w \<times> 'w \<times> 'w \<times> 'w) \<times> 'w call list) option" where
  "fw_round eng hc st fw log =
     (case fw of ((seed1, lcg1), (seed2, lcg2), (seed3, lcg3), (seed4, lcg4), h2, x2) \<Rightarrow>
        do {
          (st', out1, log0) \<leftarrow> main_call (e_core eng) hc st log;
          seed4x \<leftarrow> e_xor eng seed4 out1;
          (seed1', lcg1', h2a, outf1, log1) \<leftarrow>
             core_call (e_core eng) 1 seed1 lcg1 h2 ((x2 + 0) mod 5) log0;
          (seed2', lcg2', h2b, outf2, log2) \<leftarrow>
             core_call (e_core eng) 2 seed2 lcg2 h2a ((x2 + 1) mod 5) log1;
          (seed3', lcg3', h2c, outf3, log3) \<leftarrow>
             core_call (e_core eng) 3 seed3 lcg3 h2b ((x2 + 2) mod 5) log2;
          (seed4', lcg4', h2d, outf4, log4) \<leftarrow>
             core_call (e_core eng) 4 seed4x lcg4 h2c ((x2 + 3) mod 5) log3;
          Some (next_x st',
                ((seed1', lcg1'), (seed2', lcg2'), (seed3', lcg3'), (seed4', lcg4'), h2d, x2 + 1),
                (outf1, outf2, outf3, outf4), log4)
        })"

fun fw_loop ::
  "'w engine \<Rightarrow> nat \<Rightarrow> (nat \<Rightarrow> 'w \<times> 'w \<times> 'w \<times> 'w \<Rightarrow> 'a \<Rightarrow> 'a option) \<Rightarrow> nat list
     \<Rightarrow> 'w mstate \<Rightarrow> 'w fwstate \<Rightarrow> 'a \<Rightarrow> 'w call list
     \<Rightarrow> ('w mstate \<times> 'w fwstate \<times> 'a \<times> 'w call list) option" where
  "fw_loop eng hc observe [] st fw acc log = Some (st, fw, acc, log)"
| "fw_loop eng hc observe (i # is) st fw acc log =
     do {
       (st', fw', outs, log') \<leftarrow> fw_round eng hc st fw log;
       acc' \<leftarrow> observe i outs acc;
       fw_loop eng hc observe is st' fw' acc' log'
     }"

text \<open>
  \<^verbatim>\<open>if(i>=fc): obs.append(outf1); ...; obs.append(outf4)\<close> in the concrete run; in the
  symbolic run each bit of \<^verbatim>\<open>outf1\<close> to \<^verbatim>\<open>outf4\<close> is constrained to the bit of
  \<^verbatim>\<open>obs[(k-fc)*4+0]\<close> to \<^verbatim>\<open>obs[(k-fc)*4+3]\<close>.
\<close>

definition calc_observe4 :: "nat \<Rightarrow> nat \<Rightarrow> int \<times> int \<times> int \<times> int \<Rightarrow> int list \<Rightarrow> int list option" where
  "calc_observe4 fc i outs obs =
     (case outs of (outf1, outf2, outf3, outf4) \<Rightarrow>
        Some (if fc \<le> i then obs @ [outf1, outf2, outf3, outf4] else obs))"

definition sat_observe4 ::
  "nat \<Rightarrow> int list \<Rightarrow> nat \<Rightarrow> bitf list \<times> bitf list \<times> bitf list \<times> bitf list
     \<Rightarrow> (bitf \<times> bool) list \<Rightarrow> (bitf \<times> bool) list option" where
  "sat_observe4 fc obs k outs cons =
     (case outs of (outf1, outf2, outf3, outf4) \<Rightarrow>
        if fc \<le> k
        then do {
          c1 \<leftarrow> make_equal_bits outf1 obs ((k - fc) * 4 + 0);
          c2 \<leftarrow> make_equal_bits outf2 obs ((k - fc) * 4 + 1);
          c3 \<leftarrow> make_equal_bits outf3 obs ((k - fc) * 4 + 2);
          c4 \<leftarrow> make_equal_bits outf4 obs ((k - fc) * 4 + 3);
          Some (cons @ c1 @ c2 @ c3 @ c4)
        }
        else Some cons)"

definition t642_calc ::
  "nat \<Rightarrow> nat \<Rightarrow> nat \<Rightarrow> int \<Rightarrow> int list \<Rightarrow> int list \<Rightarrow> nat \<Rightarrow> nat \<Rightarrow> nat
     \<Rightarrow> (int list \<times> int call list) option" where
  "t642_calc bits hci ivlen seed_i hcv iv hc fc num_obs =
     do {
       calc_h \<leftarrow> calc_h_init bits hci hcv hc;
       (st1, log1) \<leftarrow> init_loop (calc_core bits) hc 5 (seed_i AND bmask bits, 0, calc_h, 0) [];
       (st2, ivpos, log2) \<leftarrow> iv_loop (calc_engine bits) hc ivlen iv [0..<hc] st1 0 log1;
       (st3, log3) \<leftarrow> fill_loop (calc_core bits) hc (hc + 1) st2 log2;
       (st4, fw, obs, log4) \<leftarrow>
          fw_loop (calc_engine bits) hc (calc_observe4 fc) [0..<fc + num_obs] st3
            ((0, 0), (0, 0), (0, 0), (0, 0), [0, 0, 0, 0, 0], 0) [] log3;
       Some (obs, log4)
     }"

definition t642_sat ::
  "nat \<Rightarrow> nat \<Rightarrow> nat \<Rightarrow> int list \<Rightarrow> nat \<Rightarrow> nat \<Rightarrow> nat \<Rightarrow> int list
     \<Rightarrow> ((bitf \<times> bool) list \<times> bitf list call list) option" where
  "t642_sat bits hci ivlen iv hc fc num_obs obs =
     (let z = inibits bits 0 in
      do {
        (st1, log1) \<leftarrow> init_loop (prvhash_core_sat bits) hc 5
                         (new_vars 0 bits, z, sat_h_init bits hci hc bits, 0) [];
        (st2, ivpos, log2) \<leftarrow> iv_loop (sat_engine bits) hc ivlen iv [0..<hc] st1 0 log1;
        (st3, log3) \<leftarrow> fill_loop (prvhash_core_sat bits) hc (hc + 1) st2 log2;
        (st4, fw, cons, log4) \<leftarrow>
           fw_loop (sat_engine bits) hc (sat_observe4 fc obs) [0..<fc + num_obs] st3
             ((z, z), (z, z), (z, z), (z, z), [z, z, z, z, z], 0) [] log3;
        Some (cons, log4)
      })"

section \<open>Schedules and traces\<close>

text \<open>
  The schedule of a run is the list of (lane, index of the hash element) of its calls,
  in order. In Variant A: five calls on element 0, then \<open>hc + 1 + 2 * num_obs\<close> calls
  whose element is a counter modulo \<^verbatim>\<open>hc\<close>. In Variant B: five calls on element 0,
  \<open>2 * hc + 1\<close> calls of the main core on a counter modulo \<^verbatim>\<open>hc\<close>, then per round one
  call of the main core and one of each firewall core.
\<close>

definition lane_index :: "'w call \<Rightarrow> nat \<times> nat" where
  "lane_index c = (call_lane c, call_index c)"

definition round_schedule :: "nat \<Rightarrow> nat \<Rightarrow> nat \<Rightarrow> nat \<Rightarrow> (nat \<times> nat) list" where
  "round_schedule hc x x2 r =
     [(0, (x + r) mod hc), (1, (x2 + r) mod 5), (2, (x2 + r + 1) mod 5),
      (3, (x2 + r + 2) mod 5), (4, (x2 + r + 3) mod 5)]"

definition schedule_A :: "nat \<Rightarrow> nat \<Rightarrow> (nat \<times> nat) list" where
  "schedule_A hc num_obs =
     replicate 5 (0, 0) @ map (\<lambda>n. (0, n mod hc)) [0..<hc + 1 + 2 * num_obs]"

definition schedule_B :: "nat \<Rightarrow> nat \<Rightarrow> nat \<Rightarrow> (nat \<times> nat) list" where
  "schedule_B hc fc num_obs =
     replicate 5 (0, 0) @ map (\<lambda>n. (0, n mod hc)) [0..<2 * hc + 1]
       @ concat (map (round_schedule hc (2 * hc + 1) 0) [0..<fc + num_obs])"

text \<open>
  The outputs of consecutive pairs of calls, and the four firewall outputs of each
  block of five calls of a round.
\<close>

fun pair_outs :: "'w call list \<Rightarrow> ('w \<times> 'w) list" where
  "pair_outs (e1 # e2 # es) = (call_out e1, call_out e2) # pair_outs es"
| "pair_outs _ = []"

fun round_outs :: "'w call list \<Rightarrow> ('w \<times> 'w \<times> 'w \<times> 'w) list" where
  "round_outs (e0 # e1 # e2 # e3 # e4 # es) =
     (call_out e1, call_out e2, call_out e3, call_out e4) # round_outs es"
| "round_outs _ = []"

text \<open>The constraints that bind each bit of a bit-vector to the bit of an integer.\<close>

definition bit_constraints :: "bitf list \<Rightarrow> int \<Rightarrow> (bitf \<times> bool) list" where
  "bit_constraints out v = map (\<lambda>i. (out ! i, bit v i)) [0..<length out]"

definition xor_bits :: "bitf list \<Rightarrow> bitf list \<Rightarrow> bitf list" where
  "xor_bits a b = map (\<lambda>i. BXor (a ! i) (b ! i)) [0..<length a]"

text \<open>
  The four outputs of a round as a list, and the constraints that bind them to the four
  observations of observation round \<open>r\<close>.
\<close>

definition quad_list :: "'a \<times> 'a \<times> 'a \<times> 'a \<Rightarrow> 'a list" where
  "quad_list q = (case q of (a, b, c, d) \<Rightarrow> [a, b, c, d])"

definition quad_constraints ::
  "int list \<Rightarrow> nat \<Rightarrow> bitf list \<times> bitf list \<times> bitf list \<times> bitf list \<Rightarrow> (bitf \<times> bool) list" where
  "quad_constraints obs r q =
     (case q of (a, b, c, d) \<Rightarrow>
        bit_constraints a (obs ! (r * 4 + 0)) @ bit_constraints b (obs ! (r * 4 + 1))
        @ bit_constraints c (obs ! (r * 4 + 2)) @ bit_constraints d (obs ! (r * 4 + 3)))"

text \<open>
  The nonce word of step \<open>i\<close> of the initialization pass as the specification has it:
  one word every other step, on the odd steps, in order, until \<^verbatim>\<open>ivlen\<close> words are
  consumed. \<open>mix\<close> is the exclusive or with that word, if there is one. A list of calls
  is a trace of the pass when each call takes as \<^verbatim>\<open>seed\<close> and \<^verbatim>\<open>lcg\<close> the results of the
  previous call mixed with the nonce word of its step.
\<close>

definition nonce_word :: "nat \<Rightarrow> int list \<Rightarrow> nat \<Rightarrow> int option" where
  "nonce_word ivlen iv i = (if odd i \<and> i div 2 < ivlen then Some (iv ! (i div 2)) else None)"

definition mix :: "'w engine \<Rightarrow> 'w \<Rightarrow> int option \<Rightarrow> 'w option" where
  "mix eng w v = (case v of None \<Rightarrow> Some w | Some u \<Rightarrow> e_xor eng w (e_const eng u))"

fun iv_trace ::
  "'w engine \<Rightarrow> nat \<Rightarrow> int list \<Rightarrow> nat \<Rightarrow> 'w \<Rightarrow> 'w \<Rightarrow> 'w call list \<Rightarrow> bool" where
  "iv_trace eng ivlen iv i seed lcg [] = True"
| "iv_trace eng ivlen iv i seed lcg (e # es) =
     (mix eng seed (nonce_word ivlen iv i) = Some (call_seed_in e)
      \<and> mix eng lcg (nonce_word ivlen iv i) = Some (call_lcg_in e)
      \<and> iv_trace eng ivlen iv (Suc i) (call_seed e) (call_lcg e) es)"

text \<open>
  A logged call is a step of the core when its four results are what the core returns
  on its three arguments.
\<close>

definition step_ok :: "'w core \<Rightarrow> 'w call \<Rightarrow> bool" where
  "step_ok core e \<longleftrightarrow>
     core (call_seed_in e) (call_lcg_in e) (call_hash_in e) = Some (call_result e)"

text \<open>
  The calls of the main core in a log, and the part of the state of the main core that
  the calls read and write: \<^verbatim>\<open>seed\<close>, \<^verbatim>\<open>lcg\<close> and the hash array.
\<close>

definition main_calls :: "'w call list \<Rightarrow> 'w call list" where
  "main_calls log = filter (\<lambda>e. call_lane e = 0) log"

definition st_core :: "'w mstate \<Rightarrow> 'w \<times> 'w \<times> 'w list" where
  "st_core st = (case st of (seed, lcg, h, x) \<Rightarrow> (seed, lcg, h))"

text \<open>
  A list of calls is a trace of the main core from a state \<open>(seed, lcg, h)\<close>, given for
  each call the nonce word mixed in before it (if any), when every call is on the main
  lane, passes an element of \<open>h\<close> that exists, takes as \<^verbatim>\<open>seed\<close> and \<^verbatim>\<open>lcg\<close> the current
  ones mixed with the nonce word and as hash word the current content of its element,
  is a step of the core on these three arguments, and the rest of the list is a trace
  from the state that the call leaves: the \<^verbatim>\<open>seed\<close> and \<^verbatim>\<open>lcg\<close> it returns, and \<open>h\<close> with
  the element replaced by the hash word it returns. Together with the indices of the
  elements such a trace determines every field of every call from the initial state.
\<close>

fun main_trace ::
  "'w engine \<Rightarrow> int option list \<Rightarrow> 'w \<times> 'w \<times> 'w list \<Rightarrow> 'w call list \<Rightarrow> bool" where
  "main_trace eng [] st [] = True"
| "main_trace eng (w # ws) (seed, lcg, h) (e # es) =
     (call_lane e = 0 \<and> call_index e < length h
      \<and> mix eng seed w = Some (call_seed_in e)
      \<and> mix eng lcg w = Some (call_lcg_in e)
      \<and> call_hash_in e = h ! call_index e
      \<and> step_ok (e_core eng) e
      \<and> main_trace eng ws (call_seed e, call_lcg e, h[call_index e := call_hash e]) es)"
| "main_trace eng ws st es = False"

text \<open>
  A list of calls extends the traces of the main core from \<open>st\<close> to \<open>st'\<close> when every
  trace from \<open>st'\<close> appended to it is a trace from \<open>st\<close>.
\<close>

definition trace_ext ::
  "'w engine \<Rightarrow> int option list \<Rightarrow> 'w \<times> 'w \<times> 'w list \<Rightarrow> 'w call list \<Rightarrow> 'w \<times> 'w \<times> 'w list
     \<Rightarrow> bool" where
  "trace_ext eng ws st es st' \<longleftrightarrow>
     (\<forall>ws' es'. main_trace eng ws' st' es' \<longrightarrow> main_trace eng (ws @ ws') st (es @ es'))"

text \<open>
  A list of calls is a trace of the firewall rounds from a state of the four firewall
  cores when it consists of blocks of five calls, the main core's and the four firewall
  cores', each firewall core taking its own \<^verbatim>\<open>seed\<close> and \<^verbatim>\<open>lcg\<close> (the fourth its
  \<^verbatim>\<open>seed\<close> mixed with the output of the block's main call) and the current content of
  its element of the shared array \<^verbatim>\<open>h2\<close>, its call being a step of the core on them.
\<close>

definition fw_entry :: "'w core \<Rightarrow> nat \<Rightarrow> nat \<Rightarrow> 'w \<Rightarrow> 'w \<Rightarrow> 'w list \<Rightarrow> 'w call \<Rightarrow> bool" where
  "fw_entry core lane i seed lcg h2 e \<longleftrightarrow>
     call_lane e = lane \<and> call_index e = i \<and> call_seed_in e = seed \<and> call_lcg_in e = lcg
     \<and> call_hash_in e = h2 ! i \<and> step_ok core e"

fun fw_trace :: "'w engine \<Rightarrow> 'w fwstate \<Rightarrow> 'w call list \<Rightarrow> bool" where
  "fw_trace eng fw [] = True"
| "fw_trace eng ((seed1, lcg1), (seed2, lcg2), (seed3, lcg3), (seed4, lcg4), h2, x2)
      (e0 # e1 # e2 # e3 # e4 # es) =
     (let h2a = h2[x2 mod 5 := call_hash e1];
          h2b = h2a[(x2 + 1) mod 5 := call_hash e2];
          h2c = h2b[(x2 + 2) mod 5 := call_hash e3];
          h2d = h2c[(x2 + 3) mod 5 := call_hash e4]
      in call_lane e0 = 0
       \<and> e_xor eng seed4 (call_out e0) = Some (call_seed_in e4)
       \<and> fw_entry (e_core eng) 1 (x2 mod 5) seed1 lcg1 h2 e1
       \<and> fw_entry (e_core eng) 2 ((x2 + 1) mod 5) seed2 lcg2 h2a e2
       \<and> fw_entry (e_core eng) 3 ((x2 + 2) mod 5) seed3 lcg3 h2b e3
       \<and> fw_entry (e_core eng) 4 ((x2 + 3) mod 5) (call_seed_in e4) lcg4 h2c e4
       \<and> fw_trace eng ((call_seed e1, call_lcg e1), (call_seed e2, call_lcg e2),
                       (call_seed e3, call_lcg e3), (call_seed e4, call_lcg e4), h2d, x2 + 1) es)"
| "fw_trace eng fw es = False"

text \<open>
  In a list of blocks of five calls, \<open>fw_call es r k\<close> is the call of lane \<open>k\<close> in block
  \<open>r\<close> and \<open>round_calls es r\<close> the four firewall calls of that block. The firewall
  cores share their array over \<open>n\<close> rounds when in every round the four calls are those
  of the lanes 1 to 4 on the elements \<open>r mod 5\<close> to \<open>(r + 3) mod 5\<close>, four distinct
  elements, and the hash word that the core of lane 2, 3 or 4 writes in a round is the
  one that the core of lane 1, 2 or 3 reads in the next round, the hash word that the
  core of lane 1 writes the one that the core of lane 4 reads two rounds later.
\<close>

definition fw_h2 :: "'w fwstate \<Rightarrow> 'w list" where
  "fw_h2 fw = (case fw of (c1, c2, c3, c4, h2, x2) \<Rightarrow> h2)"

definition fw_call :: "'w call list \<Rightarrow> nat \<Rightarrow> nat \<Rightarrow> 'w call" where
  "fw_call es r k = es ! (5 * r + k)"

definition round_calls :: "'w call list \<Rightarrow> nat \<Rightarrow> 'w call list" where
  "round_calls es r = [fw_call es r 1, fw_call es r 2, fw_call es r 3, fw_call es r 4]"

definition shared_array :: "'w call list \<Rightarrow> nat \<Rightarrow> bool" where
  "shared_array es n \<longleftrightarrow>
     map (\<lambda>r. map call_lane (round_calls es r)) [0..<n] = replicate n [1, 2, 3, 4]
   \<and> map (\<lambda>r. map call_index (round_calls es r)) [0..<n]
       = map (\<lambda>r. [r mod 5, (r + 1) mod 5, (r + 2) mod 5, (r + 3) mod 5]) [0..<n]
   \<and> map (\<lambda>r. distinct (map call_index (round_calls es r))) [0..<n] = replicate n True
   \<and> map (\<lambda>r. call_hash_in (fw_call es (r + 1) 1)) [0..<n - 1]
       = map (\<lambda>r. call_hash (fw_call es r 2)) [0..<n - 1]
   \<and> map (\<lambda>r. call_hash_in (fw_call es (r + 1) 2)) [0..<n - 1]
       = map (\<lambda>r. call_hash (fw_call es r 3)) [0..<n - 1]
   \<and> map (\<lambda>r. call_hash_in (fw_call es (r + 1) 3)) [0..<n - 1]
       = map (\<lambda>r. call_hash (fw_call es r 4)) [0..<n - 1]
   \<and> map (\<lambda>r. call_hash_in (fw_call es (r + 2) 4)) [0..<n - 2]
       = map (\<lambda>r. call_hash (fw_call es r 1)) [0..<n - 2]"

section \<open>Invariants of the loops\<close>

text \<open>
  A core is well-behaved on the words that satisfy \<open>P\<close> when it returns on them and its
  results satisfy \<open>P\<close> again: every integer for the concrete core, the bit-vectors of
  the state width for the symbolic core. A state is good when its words satisfy \<open>P\<close>
  and the hash array has its length.
\<close>

definition core_ok :: "('w \<Rightarrow> bool) \<Rightarrow> 'w core \<Rightarrow> bool" where
  "core_ok P core \<longleftrightarrow>
     (\<forall>s l h. P s \<and> P l \<and> P h \<longrightarrow>
        (\<exists>s' l' h' out. core s l h = Some (s', l', h', out) \<and> P s' \<and> P l' \<and> P h' \<and> P out))"

definition engine_ok :: "('w \<Rightarrow> bool) \<Rightarrow> 'w engine \<Rightarrow> bool" where
  "engine_ok P eng \<longleftrightarrow>
     core_ok P (e_core eng)
     \<and> (\<forall>a b. P a \<and> P b \<longrightarrow> (\<exists>c. e_xor eng a b = Some c \<and> P c))
     \<and> (\<forall>v. P (e_const eng v))"

definition good :: "('w \<Rightarrow> bool) \<Rightarrow> nat \<Rightarrow> 'w mstate \<Rightarrow> bool" where
  "good P hc st \<longleftrightarrow>
     (case st of (seed, lcg, h, x) \<Rightarrow> P seed \<and> P lcg \<and> length h = hc \<and> list_all P h)"

definition fw_good :: "('w \<Rightarrow> bool) \<Rightarrow> 'w fwstate \<Rightarrow> bool" where
  "fw_good P fw \<longleftrightarrow>
     (case fw of ((seed1, lcg1), (seed2, lcg2), (seed3, lcg3), (seed4, lcg4), h2, x2) \<Rightarrow>
        P seed1 \<and> P lcg1 \<and> P seed2 \<and> P lcg2 \<and> P seed3 \<and> P lcg3 \<and> P seed4 \<and> P lcg4
        \<and> length h2 = 5 \<and> list_all P h2)"

definition st_x :: "'w mstate \<Rightarrow> nat" where
  "st_x st = (case st of (seed, lcg, h, x) \<Rightarrow> x)"

definition st_seed :: "'w mstate \<Rightarrow> 'w" where
  "st_seed st = (case st of (seed, lcg, h, x) \<Rightarrow> seed)"

definition st_lcg :: "'w mstate \<Rightarrow> 'w" where
  "st_lcg st = (case st of (seed, lcg, h, x) \<Rightarrow> lcg)"

definition fw_x2 :: "'w fwstate \<Rightarrow> nat" where
  "fw_x2 fw = (case fw of (c1, c2, c3, c4, h2, x2) \<Rightarrow> x2)"

fun observe_fold :: "(nat \<Rightarrow> 'b \<Rightarrow> 'a \<Rightarrow> 'a option) \<Rightarrow> (nat \<times> 'b) list \<Rightarrow> 'a \<Rightarrow> 'a option" where
  "observe_fold observe [] acc = Some acc"
| "observe_fold observe ((k, out) # xs) acc =
     do { acc' \<leftarrow> observe k out acc; observe_fold observe xs acc' }"

text \<open>
  The four values a call returns, decoded under an assignment, and the relation that a
  bit-vector of the state width decodes to a given integer modulo \<open>2 ^ bits\<close>.
\<close>

definition decode_result :: "(nat \<Rightarrow> bool) \<Rightarrow> bitf list call \<Rightarrow> int \<times> int \<times> int \<times> int" where
  "decode_result m c = call_result (map_call (decode m) c)"

definition word_rel :: "nat \<Rightarrow> (nat \<Rightarrow> bool) \<Rightarrow> bitf list \<Rightarrow> int \<Rightarrow> bool" where
  "word_rel bits m v c \<longleftrightarrow> length v = bits \<and> decode m v = c mod 2 ^ bits"

section \<open>Decoding lemmas\<close>

lemma full_adder_sum: "fst (full_adder a b c) = ((a \<noteq> b) \<noteq> c)"
  by (cases a; cases b; cases c) (simp_all add: full_adder_def)

lemma full_adder_carry: "snd (full_adder a b c) = ((a \<and> b) \<or> (a \<and> c) \<or> (b \<and> c))"
  by (cases a; cases b; cases c) (simp_all add: full_adder_def)

lemma inibits_Suc: "inibits (Suc l) ini = BConst (odd ini) # inibits l (ini div 2)"
proof -
  have "[0..<Suc l] = 0 # map Suc [0..<l]"
    by (simp add: upt_conv_Cons map_Suc_upt del: upt_Suc)
  then show ?thesis
    by (simp add: inibits_def drop_bit_Suc and_one_eq mod_2_eq_odd del: upt_Suc)
qed

lemma decode_inibits: "decode m (inibits l ini) = ini mod 2 ^ l"
proof (induction l arbitrary: ini)
  case 0
  show ?case by (simp add: inibits_def)
next
  case (Suc l)
  have "ini mod 2 ^ Suc l = of_bool (odd ini) + 2 * ((ini div 2) mod 2 ^ l)"
    using take_bit_Suc[of l ini] by (simp add: take_bit_eq_mod mod_2_eq_odd)
  then show ?case by (simp add: inibits_Suc Suc.IH)
qed

lemma length_inibits: "length (inibits l ini) = l"
  by (simp add: inibits_def)

lemma decode_nonneg: "0 \<le> decode m bs"
  by (induction bs) simp_all

lemma decode_less: "decode m bs < 2 ^ length bs"
proof (induction bs)
  case (Cons b bs)
  have "of_bool (eval_bit m b) \<le> (1::int)" by simp
  with Cons show ?case by simp
qed simp

lemma decode_append: "decode m (xs @ ys) = decode m xs + 2 ^ length xs * decode m ys"
  by (induction xs) (simp_all add: algebra_simps)

lemma full_adder_arith:
  fixes k n :: int
  assumes "0 < n"
  shows "(of_bool x + of_bool y + of_bool c + 2 * k) mod (2 * n)
     = of_bool (fst (full_adder x y c)) + 2 * ((k + of_bool (snd (full_adder x y c))) mod n)"
proof -
  have even_case: "(2 * j) mod (2 * n) = 2 * (j mod n)" for j :: int
    by simp
  have odd_case: "(1 + 2 * j) mod (2 * n) = 1 + 2 * (j mod n)" for j :: int
    using assms by (simp add: pos_zmod_mult_2)
  have two: "2 + 2 * k = 2 * (k + 1)" and three: "3 + 2 * k = 1 + 2 * (k + 1)"
    by simp_all
  have c0: "(0 + 2 * k) mod (2 * n) = 0 + 2 * ((k + 0) mod n)"
    using even_case[of k] by simp
  have c1: "(1 + 2 * k) mod (2 * n) = 1 + 2 * ((k + 0) mod n)"
    using odd_case[of k] by simp
  have c2: "(2 + 2 * k) mod (2 * n) = 0 + 2 * ((k + 1) mod n)"
    unfolding two using even_case[of "k + 1"] by simp
  have c3: "(3 + 2 * k) mod (2 * n) = 1 + 2 * ((k + 1) mod n)"
    unfolding three using odd_case[of "k + 1"] by simp
  show ?thesis
  proof (cases x; cases y; cases c)
    assume "x" "y" "c" then show ?thesis
      using c3 by (simp add: full_adder_sum full_adder_carry)
  next
    assume "x" "y" "\<not> c" then show ?thesis
      using c2 by (simp add: full_adder_sum full_adder_carry)
  next
    assume "x" "\<not> y" "c" then show ?thesis
      using c2 by (simp add: full_adder_sum full_adder_carry)
  next
    assume "x" "\<not> y" "\<not> c" then show ?thesis
      using c1 by (simp add: full_adder_sum full_adder_carry)
  next
    assume "\<not> x" "y" "c" then show ?thesis
      using c2 by (simp add: full_adder_sum full_adder_carry)
  next
    assume "\<not> x" "y" "\<not> c" then show ?thesis
      using c1 by (simp add: full_adder_sum full_adder_carry)
  next
    assume "\<not> x" "\<not> y" "c" then show ?thesis
      using c1 by (simp add: full_adder_sum full_adder_carry)
  next
    assume "\<not> x" "\<not> y" "\<not> c" then show ?thesis
      using c0 by (simp add: full_adder_sum full_adder_carry)
  qed
qed

lemma decode_add_loop:
  "length a = length b \<Longrightarrow>
   decode m (add_loop a b c) = (decode m a + decode m b + of_bool (eval_bit m c)) mod 2 ^ length a"
proof (induction a b arbitrary: c rule: list_induct2)
  case Nil
  show ?case by simp
next
  case (Cons a_bit a b_bit b)
  let ?x = "eval_bit m a_bit" and ?y = "eval_bit m b_bit" and ?c = "eval_bit m c"
  let ?k = "decode m a + decode m b"
  have IH: "decode m (add_loop a b (BCarry a_bit b_bit c)) =
      (?k + of_bool (snd (full_adder ?x ?y ?c))) mod 2 ^ length a"
    using Cons.IH[of "BCarry a_bit b_bit c"] by (simp only: eval_bit.simps)
  have "decode m (add_loop (a_bit # a) (b_bit # b) c)
      = of_bool (fst (full_adder ?x ?y ?c)) + 2 * decode m (add_loop a b (BCarry a_bit b_bit c))"
    by (simp add: full_adder_sat_def)
  also have "\<dots> = (of_bool ?x + of_bool ?y + of_bool ?c + 2 * ?k) mod (2 * 2 ^ length a)"
    unfolding IH by (rule full_adder_arith[symmetric]) simp
  also have "of_bool ?x + of_bool ?y + of_bool ?c + 2 * ?k
      = decode m (a_bit # a) + decode m (b_bit # b) + of_bool ?c"
    by simp
  finally show ?case by simp
qed

lemma length_add_loop: "length a = length b \<Longrightarrow> length (add_loop a b c) = length a"
  by (induction a b arbitrary: c rule: list_induct2) (simp_all add: full_adder_sat_def)

lemma add_Some:
  assumes "length a = length b"
  shows "\<exists>r. add a b = Some r \<and> length r = length a
           \<and> decode m r = (decode m a + decode m b) mod 2 ^ length a"
  using assms by (simp add: add_def length_add_loop decode_add_loop)

section \<open>Adder correctness\<close>

text \<open>
  Claim C3. For integers \<open>a\<close>, \<open>b\<close> with \<open>0 \<le> a, b < 2 ^ width\<close>, \<^verbatim>\<open>add\<close> of the two
  constant bit-vectors of that width returns a bit-vector of the same width that decodes,
  under every assignment, to \<open>(a + b) mod 2 ^ width\<close>: the carry out of the top bit is
  dropped.
\<close>

theorem add_constant_correct:
  assumes "0 \<le> a" and "a < 2 ^ width" and "0 \<le> b" and "b < 2 ^ width"
  shows "map_option (\<lambda>r. (length r, decode m r)) (add (inibits width a) (inibits width b))
           = Some (width, (a + b) mod 2 ^ width)"
proof -
  have "add (inibits width a) (inibits width b)
          = Some (add_loop (inibits width a) (inibits width b) (BConst False))"
    by (simp add: add_def length_inibits)
  moreover have "decode m (add_loop (inibits width a) (inibits width b) (BConst False))
          = (a mod 2 ^ width + b mod 2 ^ width) mod 2 ^ width"
    by (simp add: decode_add_loop length_inibits decode_inibits)
  moreover have "a mod 2 ^ width = a" and "b mod 2 ^ width = b"
    using assms by simp_all
  ultimately show ?thesis
    by (simp add: length_add_loop length_inibits)
qed

theorem add_constant_correct_witness:
  "(0::int) \<le> 5 \<and> (5::int) < 2 ^ 3 \<and> (0::int) \<le> 6 \<and> (6::int) < 2 ^ 3 \<and>
   map_option (\<lambda>r. (length r, decode (\<lambda>_. False) r)) (add (inibits 3 5) (inibits 3 6))
     = Some (3, 3)"
  using add_constant_correct[of 5 3 6 "\<lambda>_. False"] by simp

lemma decode_take: "decode m (take k xs) = decode m xs mod 2 ^ k"
proof (induction xs arbitrary: k)
  case Nil
  show ?case by simp
next
  case (Cons x xs)
  show ?case
  proof (cases k)
    case 0
    then show ?thesis by simp
  next
    case (Suc j)
    have "(of_bool (eval_bit m x) + 2 * decode m xs) mod (2 * 2 ^ j)
        = of_bool (eval_bit m x) + 2 * (decode m xs mod 2 ^ j)"
      by (cases "eval_bit m x") (simp_all add: pos_zmod_mult_2)
    then show ?thesis using Suc Cons.IH[of j] by simp
  qed
qed

lemma decode_map_and:
  "decode m (map (\<lambda>bit. BAnd c bit) xs) = of_bool (eval_bit m c) * decode m xs"
proof (cases "eval_bit m c")
  case True
  then show ?thesis by (induction xs) simp_all
next
  case False
  then show ?thesis by (induction xs) simp_all
qed

lemma decode_drop: "decode m xs = decode m (take k xs) + 2 ^ k * decode m (drop k xs)"
proof -
  have "decode m (take k xs @ drop k xs) = decode m (take k xs) + 2 ^ length (take k xs) * decode m (drop k xs)"
    by (rule decode_append)
  moreover have "k \<le> length xs \<Longrightarrow> length (take k xs) = k" by simp
  moreover have "\<not> k \<le> length xs \<Longrightarrow> decode m (drop k xs) = 0" by simp
  ultimately show ?thesis by (cases "k \<le> length xs") simp_all
qed

lemma mul_step_arith:
  fixes t d e p :: int
  assumes "k < n"
  shows "(t + 2 ^ k * ((d + c * (e mod 2 ^ (n - k))) mod 2 ^ (n - k)) + p) mod 2 ^ n
       = (t + 2 ^ k * d + 2 ^ k * c * e + p) mod 2 ^ n"
proof -
  have pw: "(2::int) ^ n = 2 ^ k * 2 ^ (n - k)"
    using assms by (simp flip: power_add)
  have inner: "(d + c * (e mod 2 ^ (n - k))) mod 2 ^ (n - k) = (d + c * e) mod 2 ^ (n - k)"
    by (metis mod_add_right_eq mod_mult_right_eq)
  have "2 ^ k * ((d + c * (e mod 2 ^ (n - k))) mod 2 ^ (n - k)) mod 2 ^ n
      = (2 ^ k * (d + c * e)) mod 2 ^ n"
    unfolding pw inner by (simp only: mult_mod_right mod_mod_trivial)
  then have "(t + 2 ^ k * ((d + c * (e mod 2 ^ (n - k))) mod 2 ^ (n - k))) mod 2 ^ n
      = (t + 2 ^ k * (d + c * e)) mod 2 ^ n"
    by (rule mod_add_cong[OF refl])
  then have "(t + 2 ^ k * ((d + c * (e mod 2 ^ (n - k))) mod 2 ^ (n - k)) + p) mod 2 ^ n
      = (t + 2 ^ k * (d + c * e) + p) mod 2 ^ n"
    by (rule mod_add_cong[OF _ refl])
  moreover have "t + 2 ^ k * (d + c * e) + p = t + 2 ^ k * d + 2 ^ k * c * e + p"
    by (simp only: distrib_left mult.assoc)
  ultimately show ?thesis by (simp only:)
qed

lemma mul_regroup:
  fixes t x :: int
  assumes "r = t + x * d"
  shows "t + x * d + x * c * e + (2 * x) * a' * e = r + x * (c + 2 * a') * e"
  unfolding assms by (simp add: algebra_simps)

lemma mul_loop_correct:
  assumes "length a = n" and "length b = n"
  shows "length result = n \<Longrightarrow> k \<le> n \<Longrightarrow>
    \<exists>r. mul_loop a b [k..<n] result = Some r \<and> length r = n \<and>
        decode m r = (decode m result + 2 ^ k * decode m (drop k a) * decode m b) mod 2 ^ n"
proof (induction "n - k" arbitrary: k result)
  case 0
  then have "k = n" by simp
  then show ?case using 0 assms decode_nonneg[of m result] decode_less[of m result] by simp
next
  case (Suc d)
  then have kn: "k < n" by simp
  let ?addend = "map (\<lambda>bit. BAnd (a ! k) bit) (take (length b - k) b)"
  have la: "length (drop k result) = length ?addend"
    using Suc.prems assms by simp
  obtain r1 where r1: "add (drop k result) ?addend = Some r1"
    and lr1: "length r1 = n - k"
    and dr1: "decode m r1 = (decode m (drop k result) + decode m ?addend) mod 2 ^ (n - k)"
    using add_Some[OF la, of m] Suc.prems by auto
  let ?res' = "take k result @ r1"
  have lres': "length ?res' = n" using Suc.prems lr1 kn by simp
  have "d = n - Suc k" using Suc.hyps by simp
  from Suc.hyps(1)[OF this lres'] kn
  obtain r where r: "mul_loop a b [Suc k..<n] ?res' = Some r" and lr: "length r = n"
    and dr: "decode m r = (decode m ?res' + 2 ^ Suc k * decode m (drop (Suc k) a) * decode m b) mod 2 ^ n"
    by auto
  have unf: "mul_loop a b [k..<n] result = mul_loop a b [Suc k..<n] ?res'"
    using kn r1 by (simp add: upt_conv_Cons)
  have da: "decode m (drop k a) = of_bool (eval_bit m (a ! k)) + 2 * decode m (drop (Suc k) a)"
    using kn assms by (simp flip: Cons_nth_drop_Suc)
  have dres': "decode m ?res' = decode m (take k result)
      + 2 ^ k * ((decode m (drop k result)
                  + of_bool (eval_bit m (a ! k)) * (decode m b mod 2 ^ (n - k))) mod 2 ^ (n - k))"
    using Suc.prems kn assms by (simp add: decode_append dr1 decode_map_and decode_take)
  have "decode m r = (decode m (take k result) + 2 ^ k * decode m (drop k result)
       + 2 ^ k * of_bool (eval_bit m (a ! k)) * decode m b
       + 2 ^ Suc k * decode m (drop (Suc k) a) * decode m b) mod 2 ^ n"
    unfolding dr dres' by (rule mul_step_arith[OF kn])
  also have "decode m (take k result) + 2 ^ k * decode m (drop k result)
       + 2 ^ k * of_bool (eval_bit m (a ! k)) * decode m b
       + 2 ^ Suc k * decode m (drop (Suc k) a) * decode m b
     = decode m result + 2 ^ k * decode m (drop k a) * decode m b"
    unfolding da power_Suc by (rule mul_regroup) (rule decode_drop)
  finally show ?case using unf r lr by simp
qed

lemma mul_Some:
  assumes "length a = length b" and "a \<noteq> []"
  shows "\<exists>r. mul a b = Some r \<and> length r = length a \<and>
        decode m r = (decode m a * decode m b) mod 2 ^ length a"
proof -
  let ?n = "length a"
  let ?r0 = "map (\<lambda>bit. BAnd (a ! 0) bit) b"
  have n1: "1 \<le> ?n" using assms(2) by (cases a) simp_all
  have "length ?r0 = ?n" using assms by simp
  from mul_loop_correct[OF refl assms(1)[symmetric] this n1, of m]
  obtain r where r: "mul_loop a b [1..<?n] ?r0 = Some r" and lr: "length r = ?n"
    and dr: "decode m r = (decode m ?r0 + 2 ^ 1 * decode m (drop 1 a) * decode m b) mod 2 ^ ?n"
    by auto
  have da: "decode m a = of_bool (eval_bit m (a ! 0)) + 2 * decode m (drop 1 a)"
    using assms(2) by (cases a) simp_all
  have "decode m ?r0 + 2 ^ 1 * decode m (drop 1 a) * decode m b = decode m a * decode m b"
    unfolding da decode_map_and by (simp add: algebra_simps)
  then have "decode m r = (decode m a * decode m b) mod 2 ^ ?n"
    unfolding dr by (simp only:)
  then show ?thesis using r lr assms by (simp add: mul_def)
qed

section \<open>Multiplier correctness\<close>

text \<open>
  Claim C4. For every width and integers \<open>a\<close>, \<open>b\<close> with \<open>0 \<le> a, b < 2 ^ width\<close>, \<^verbatim>\<open>mul\<close>
  of the two constant bit-vectors returns a bit-vector of that width which decodes, under
  every assignment, to \<open>(a * b) mod 2 ^ width\<close>: the shift-and-add product truncated to
  the input width is unsigned modular multiplication.
\<close>

theorem mul_constant_correct:
  assumes "0 \<le> a" and "a < 2 ^ width" and "0 \<le> b" and "b < 2 ^ width"
  shows "map_option (\<lambda>r. (length r, decode m r)) (mul (inibits width a) (inibits width b))
           = Some (width, (a * b) mod 2 ^ width)"
proof (cases "width = 0")
  case True
  then show ?thesis by (simp add: mul_def inibits_def)
next
  case False
  have len: "length (inibits width a) = length (inibits width b)"
    by (simp add: length_inibits)
  have ne: "inibits width a \<noteq> []"
    using False length_inibits[of width a] by (cases "inibits width a") simp_all
  obtain r where r: "mul (inibits width a) (inibits width b) = Some r"
    and lr: "length r = width"
    and dr: "decode m r = (a mod 2 ^ width * (b mod 2 ^ width)) mod 2 ^ width"
    using mul_Some[OF len ne, of m] by (auto simp add: length_inibits decode_inibits)
  have "a mod 2 ^ width = a" and "b mod 2 ^ width = b"
    using assms by simp_all
  then show ?thesis using r lr dr by simp
qed

theorem mul_constant_correct_witness:
  "(0::int) \<le> 5 \<and> (5::int) < 2 ^ 3 \<and> (0::int) \<le> 6 \<and> (6::int) < 2 ^ 3 \<and>
   map_option (\<lambda>r. (length r, decode (\<lambda>_. False) r)) (mul (inibits 3 5) (inibits 3 6))
     = Some (3, 6)"
  using mul_constant_correct[of 5 3 6 "\<lambda>_. False"] by simp

section \<open>The concrete step\<close>

lemma and_bmask: "x AND bmask bits = x mod 2 ^ bits"
proof -
  have "bmask bits = mask bits"
    by (simp add: bmask_def mask_eq_exp_minus_1 push_bit_eq_mult)
  then show ?thesis
    by (simp add: take_bit_eq_mod flip: take_bit_eq_mask)
qed

lemma bits2_half: "bits2 bits = bits div 2"
  by (simp add: bits2_def drop_bit_eq_div)

lemma rawbits_loop_Suc:
  "rawbits_loop (Suc n) p =
     (push_bit 2 (fst (rawbits_loop n p)) OR 1, push_bit 2 (snd (rawbits_loop n p)) OR 2)"
proof (induction n arbitrary: p)
  case 0
  show ?case by (cases p) simp
next
  case (Suc n)
  obtain r5 rA where p: "p = (r5, rA)" by (cases p)
  have "rawbits_loop (Suc (Suc n)) p = rawbits_loop (Suc n) (push_bit 2 r5 OR 1, push_bit 2 rA OR 2)"
    unfolding p by (simp only: rawbits_loop.simps)
  also have "\<dots> = (push_bit 2 (fst (rawbits_loop n (push_bit 2 r5 OR 1, push_bit 2 rA OR 2))) OR 1,
                   push_bit 2 (snd (rawbits_loop n (push_bit 2 r5 OR 1, push_bit 2 rA OR 2))) OR 2)"
    by (rule Suc.IH)
  also have "rawbits_loop n (push_bit 2 r5 OR 1, push_bit 2 rA OR 2) = rawbits_loop (Suc n) p"
    unfolding p by (simp only: rawbits_loop.simps)
  finally show ?case .
qed

lemma bit_two_int: "bit (2::int) i \<longleftrightarrow> i = 1"
  by (cases i) (simp_all add: bit_0 bit_Suc bit_1_iff)

lemma bit_rawbits_loop:
  "(bit (fst (rawbits_loop n (0, 0))) i \<longleftrightarrow> i < 2 * n \<and> even i) \<and>
   (bit (snd (rawbits_loop n (0, 0))) i \<longleftrightarrow> i < 2 * n \<and> odd i)"
proof (induction n arbitrary: i)
  case 0
  show ?case by simp
next
  case (Suc n)
  have f: "bit (fst (rawbits_loop n (0, 0))) (i - 2) \<longleftrightarrow> i - 2 < 2 * n \<and> even (i - 2)"
    and s: "bit (snd (rawbits_loop n (0, 0))) (i - 2) \<longleftrightarrow> i - 2 < 2 * n \<and> odd (i - 2)"
    using Suc.IH[of "i - 2"] by simp_all
  have a1: "(2 \<le> i \<and> i - 2 < 2 * n \<and> even (i - 2)) \<or> i = 0 \<longleftrightarrow> i < 2 * Suc n \<and> even i"
    by presburger
  have a2: "(2 \<le> i \<and> i - 2 < 2 * n \<and> odd (i - 2)) \<or> i = 1 \<longleftrightarrow> i < 2 * Suc n \<and> odd i"
    by presburger
  have b5: "bit (push_bit 2 v OR 1 :: int) i \<longleftrightarrow> (2 \<le> i \<and> bit v (i - 2)) \<or> i = 0" for v
    by (simp add: bit_or_iff bit_push_bit_iff bit_1_iff)
  have bA: "bit (push_bit 2 v OR 2 :: int) i \<longleftrightarrow> (2 \<le> i \<and> bit v (i - 2)) \<or> i = 1" for v
    by (simp add: bit_or_iff bit_push_bit_iff bit_two_int)
  show ?case
    unfolding rawbits_loop_Suc fst_conv snd_conv b5 bA f s
    using a1 a2 by blast
qed

lemma bit_rawbits5: "even bits \<Longrightarrow> bit (rawbits5 bits) i \<longleftrightarrow> i < bits \<and> even i"
  using bit_rawbits_loop[of "bits div 2" i] by (auto simp add: rawbits5_def bits2_half)

lemma bit_rawbitsA: "even bits \<Longrightarrow> bit (rawbitsA bits) i \<longleftrightarrow> i < bits \<and> odd i"
  using bit_rawbits_loop[of "bits div 2" i] by (auto simp add: rawbitsA_def bits2_half)

lemma rotate_code:
  fixes s :: int
  assumes "0 \<le> s" and "s < 2 ^ (2 * b)"
  shows "(drop_bit b s OR push_bit b s) mod 2 ^ (2 * b) = (s mod 2 ^ b) * 2 ^ b + s div 2 ^ b"
proof -
  have ts: "take_bit (2 * b) s = s"
    using assms by (simp add: take_bit_eq_mod)
  have "take_bit (2 * b) (drop_bit b s OR push_bit b s)
      = take_bit (2 * b) (drop_bit b s) OR take_bit (2 * b) (push_bit b s)"
    by simp
  also have "take_bit (2 * b) (push_bit b s) = push_bit b (take_bit b s)"
    by (simp add: take_bit_push_bit)
  also have "take_bit (2 * b) (drop_bit b s) = drop_bit b s"
  proof (rule bit_eqI)
    fix n
    have "bit s (b + n) \<Longrightarrow> b + n < 2 * b"
      using ts by (metis bit_take_bit_iff)
    then have "bit s (b + n) \<Longrightarrow> n < 2 * b" by simp
    then show "bit (take_bit (2 * b) (drop_bit b s)) n = bit (drop_bit b s) n"
      by (auto simp add: bit_take_bit_iff bit_drop_bit_eq add.commute)
  qed
  also have "drop_bit b s OR push_bit b (take_bit b s) = drop_bit b s + push_bit b (take_bit b s)"
  proof (rule disjunctive_add[symmetric])
    fix n
    have "bit s (b + n) \<Longrightarrow> b + n < 2 * b"
      using ts by (metis bit_take_bit_iff)
    then have "bit s (b + n) \<Longrightarrow> n < b" by simp
    then show "\<not> bit (drop_bit b s) n \<or> \<not> bit (push_bit b (take_bit b s)) n"
      by (auto simp add: bit_drop_bit_eq bit_push_bit_iff bit_take_bit_iff add.commute)
  qed
  finally show ?thesis
    by (simp add: take_bit_eq_mod drop_bit_eq_div push_bit_eq_mult algebra_simps)
qed

lemma calc_eq_spec_step:
  assumes "even bits"
  shows "prvhash_core_calc bits seed lcg h
       = spec_step bits (rawbitsA bits) (rawbits5 bits) seed lcg h"
proof -
  let ?b = "bits div 2"
  let ?s = "(seed * (2 * lcg + 1)) mod 2 ^ bits"
  have w: "bits = 2 * ?b" using assms by simp
  have "(drop_bit ?b ?s OR push_bit ?b ?s) mod 2 ^ (2 * ?b) = (?s mod 2 ^ ?b) * 2 ^ ?b + ?s div 2 ^ ?b"
    by (rule rotate_code) (use w in simp_all)
  then have rot: "(drop_bit ?b ?s OR push_bit ?b ?s) mod 2 ^ bits = rotate_halves bits ?s"
    using w by (simp add: rotate_halves_def)
  have comm: "seed * (lcg * 2 + 1) = seed * (2 * lcg + 1)" by (simp add: mult.commute)
  show ?thesis
    unfolding prvhash_core_calc_def spec_step_def Let_def and_bmask bits2_half comm rot
    by (simp add: add.assoc)
qed

text \<open>
  Claim C2. For an even width \<open>w\<close>, one concrete step returns what the recurrence of the
  specification gives: \<open>seed' = seed * (2 * lcg + 1) mod 2 ^ w\<close>, \<open>rotated\<close> the exchange of
  the two half-words of \<open>seed'\<close>, \<open>hash_word' = (h + rotated + A) mod 2 ^ w\<close>,
  \<open>lcg' = (lcg + seed' + B) mod 2 ^ w\<close>, final seed \<open>seed' XOR hash_word'\<close> and output
  \<open>lcg' XOR rotated\<close>, where bit \<open>i\<close> of the constant \<open>A\<close> is set exactly for the odd
  \<open>i < w\<close> (two-bit groups \<open>10\<close>) and bit \<open>i\<close> of \<open>B\<close> exactly for the even \<open>i < w\<close>
  (two-bit groups \<open>01\<close>). It holds for all integer inputs, in particular for those of
  width \<open>w\<close>.
\<close>

theorem prvhash_core_calc_spec:
  assumes "even w"
  shows "prvhash_core_calc w seed lcg h = spec_step w (rawbitsA w) (rawbits5 w) seed lcg h
       \<and> (bit (rawbitsA w) i \<longleftrightarrow> i < w \<and> odd i)
       \<and> (bit (rawbits5 w) i \<longleftrightarrow> i < w \<and> even i)"
  using assms calc_eq_spec_step[of w seed lcg h] bit_rawbitsA[of w i] bit_rawbits5[of w i]
  by simp

theorem prvhash_core_calc_spec_witness:
  "even (6::nat) \<and>
   (prvhash_core_calc 6 4 5 13 = spec_step 6 (rawbitsA 6) (rawbits5 6) 4 5 13
       \<and> (bit (rawbitsA 6) 3 \<longleftrightarrow> 3 < (6::nat) \<and> odd (3::nat))
       \<and> (bit (rawbits5 6) 3 \<longleftrightarrow> 3 < (6::nat) \<and> even (3::nat)))"
proof -
  have e: "even (6::nat)" by simp
  show ?thesis by (rule conjI[OF e prvhash_core_calc_spec[OF e]])
qed

section \<open>The symbolic step mirrors the concrete step\<close>

lemma decode_drop_div: "decode m (drop k xs) = decode m xs div 2 ^ k"
proof -
  have "decode m xs = decode m xs mod 2 ^ k + 2 ^ k * decode m (drop k xs)"
    using decode_drop[of m xs k] by (simp add: decode_take)
  then have "decode m xs div 2 ^ k = (decode m xs mod 2 ^ k + 2 ^ k * decode m (drop k xs)) div 2 ^ k"
    by simp
  also have "\<dots> = decode m (drop k xs)"
    by simp
  finally show ?thesis by simp
qed

lemma xor_bit_cons:
  fixes a b :: int
  shows "(of_bool p + 2 * a) XOR (of_bool q + 2 * b) = of_bool (p \<noteq> q) + 2 * (a XOR b)"
proof -
  have o: "odd (of_bool p + 2 * a) = p" "odd (of_bool q + 2 * b) = q"
    by simp_all
  have d: "(of_bool p + 2 * a) div 2 = a" "(of_bool q + 2 * b) div 2 = b"
    by (cases p; simp) (cases q; simp)
  show ?thesis
    using xor_rec[of "of_bool p + 2 * a" "of_bool q + 2 * b"] unfolding o d .
qed

lemma decode_xor:
  "length a = length b \<Longrightarrow>
   decode m (map (\<lambda>(i, j). BXor i j) (zip a b)) = decode m a XOR decode m b"
proof (induction a b rule: list_induct2)
  case Nil
  show ?case by simp
next
  case (Cons x xs y ys)
  show ?case using Cons.IH by (simp add: xor_bit_cons)
qed

lemma xor_bv_Some:
  assumes "length a = length b"
  shows "\<exists>r. xor_bv a b = Some r \<and> length r = length a \<and> decode m r = decode m a XOR decode m b"
  using assms by (simp add: xor_bv_def decode_xor)

lemma decode_multiplier:
  assumes "lcg \<noteq> []"
  shows "decode m (BConst True # butlast lcg) = (2 * decode m lcg + 1) mod 2 ^ length lcg"
proof -
  obtain k where k: "length lcg = Suc k" using assms by (cases lcg) simp_all
  have "decode m (butlast lcg) = decode m lcg mod 2 ^ k"
    by (simp add: butlast_conv_take decode_take k)
  then have "decode m (BConst True # butlast lcg) = 1 + 2 * (decode m lcg mod 2 ^ k)"
    by simp
  also have "\<dots> = (1 + 2 * decode m lcg) mod (2 * 2 ^ k)"
    by (simp add: pos_zmod_mult_2)
  also have "\<dots> = (2 * decode m lcg + 1) mod 2 ^ length lcg"
    unfolding k by (simp add: add.commute)
  finally show ?thesis .
qed

lemma mod_add3_left:
  fixes a b c n :: int
  shows "(a mod n + b + c) mod n = (a + b + c) mod n"
  by (simp only: add.assoc mod_add_left_eq)

lemma mod_add3_inner:
  fixes a x c n :: int
  shows "(a + (x + c mod n) mod n) mod n = (a + x + c) mod n"
proof -
  have "(x + c mod n) mod n = (x + c) mod n" by (rule mod_add_right_eq)
  then have "(a + (x + c mod n) mod n) mod n = (a + (x + c) mod n) mod n" by simp
  also have "\<dots> = (a + (x + c)) mod n" by (rule mod_add_right_eq)
  finally show ?thesis by (simp only: add.assoc)
qed

lemma spec_step_mod:
  "spec_step w cA cB (seed mod 2 ^ w) (lcg mod 2 ^ w) (h mod 2 ^ w) = spec_step w cA cB seed lcg h"
proof -
  have s: "((seed mod 2 ^ w) * (2 * (lcg mod 2 ^ w) + 1)) mod 2 ^ w = (seed * (2 * lcg + 1)) mod 2 ^ w"
    by (metis (no_types, opaque_lifting) mod_add_left_eq mod_mult_left_eq mod_mult_right_eq)
  have h: "(h mod 2 ^ w + r + cA) mod 2 ^ w = (h + r + cA) mod 2 ^ w" for r
    by (rule mod_add3_left)
  have l: "(lcg mod 2 ^ w + r + cB) mod 2 ^ w = (lcg + r + cB) mod 2 ^ w" for r
    by (rule mod_add3_left)
  show ?thesis
    unfolding spec_step_def Let_def s h l by (rule refl)
qed

lemma sat_step_decode:
  assumes ev: "even bits" and pos: "0 < bits"
    and ls: "length seed = bits" and ll: "length lcg = bits" and lh: "length h = bits"
  shows "\<exists>s l hw out. prvhash_core_sat bits seed lcg h = Some (s, l, hw, out)
      \<and> length s = bits \<and> length l = bits \<and> length hw = bits \<and> length out = bits
      \<and> (decode m s, decode m l, decode m hw, decode m out)
          = prvhash_core_calc bits (decode m seed) (decode m lcg) (decode m h)"
proof -
  let ?b = "bits div 2"
  let ?S = "decode m seed" and ?L = "decode m lcg" and ?H = "decode m h"
  have w: "bits = 2 * ?b" using ev by simp
  have lne: "lcg \<noteq> []" and sne: "seed \<noteq> []" using pos ll ls by auto
  have lmul: "length seed = length (BConst True # butlast lcg)" using ls ll pos by simp
  obtain seed1 where seed1: "mul seed (BConst True # butlast lcg) = Some seed1"
    and lseed1: "length seed1 = bits"
    and dseed1: "decode m seed1 = (?S * decode m (BConst True # butlast lcg)) mod 2 ^ bits"
    using mul_Some[OF lmul sne, of m] ls by auto
  let ?s1 = "(?S * (2 * ?L + 1)) mod 2 ^ bits"
  have ds1: "decode m seed1 = ?s1"
    unfolding dseed1 decode_multiplier[OF lne] ll by (simp add: mod_simps)
  let ?rs = "drop ?b seed1 @ take ?b seed1"
  have lrs: "length ?rs = bits" using lseed1 by simp
  have "decode m ?rs = decode m seed1 div 2 ^ ?b + 2 ^ (bits - ?b) * (decode m seed1 mod 2 ^ ?b)"
    using lseed1 by (simp add: decode_append decode_drop_div decode_take)
  also have "bits - ?b = ?b" using w by simp
  finally have drs: "decode m ?rs = rotate_halves bits ?s1"
    unfolding ds1 by (simp add: rotate_halves_def)
  let ?rot = "rotate_halves bits ?s1"
  have lA: "length ?rs = length (BITRA bits)" using lrs by (simp add: BITRA_def length_inibits)
  obtain t1 where t1: "add ?rs (BITRA bits) = Some t1" and lt1: "length t1 = bits"
    and dt1: "decode m t1 = (?rot + rawbitsA bits mod 2 ^ bits) mod 2 ^ bits"
    using add_Some[OF lA, of m] lrs drs by (auto simp add: BITRA_def decode_inibits)
  have lh1: "length h = length t1" using lh lt1 by simp
  obtain h1 where h1: "add h t1 = Some h1" and lh1': "length h1 = bits"
    and dh1: "decode m h1 = (?H + decode m t1) mod 2 ^ bits"
    using add_Some[OF lh1, of m] lh by auto
  have l5: "length seed1 = length (BITR5 bits)" using lseed1 by (simp add: BITR5_def length_inibits)
  obtain t2 where t2: "add seed1 (BITR5 bits) = Some t2" and lt2: "length t2 = bits"
    and dt2: "decode m t2 = (?s1 + rawbits5 bits mod 2 ^ bits) mod 2 ^ bits"
    using add_Some[OF l5, of m] lseed1 ds1 by (auto simp add: BITR5_def decode_inibits)
  have ll1: "length lcg = length t2" using ll lt2 by simp
  obtain lcg1 where lcg1: "add lcg t2 = Some lcg1" and llcg1: "length lcg1 = bits"
    and dlcg1: "decode m lcg1 = (?L + decode m t2) mod 2 ^ bits"
    using add_Some[OF ll1, of m] ll by auto
  have lx1: "length seed1 = length h1" using lseed1 lh1' by simp
  obtain seed2 where seed2: "xor_bv seed1 h1 = Some seed2" and lseed2: "length seed2 = bits"
    and dseed2: "decode m seed2 = decode m seed1 XOR decode m h1"
    using xor_bv_Some[OF lx1, of m] lseed1 by auto
  have lx2: "length lcg1 = length ?rs" using llcg1 lrs by simp
  obtain out where out: "xor_bv lcg1 ?rs = Some out" and lout: "length out = bits"
    and dout: "decode m out = decode m lcg1 XOR decode m ?rs"
    using xor_bv_Some[OF lx2, of m] llcg1 by auto
  have run: "prvhash_core_sat bits seed lcg h = Some (seed2, lcg1, h1, out)"
    unfolding prvhash_core_sat_def bits2_half
    by (simp add: seed1 t1 h1 t2 lcg1 seed2 out)
  have dh: "decode m h1 = (?H + ?rot + rawbitsA bits) mod 2 ^ bits"
    unfolding dh1 dt1 by (rule mod_add3_inner)
  have dl: "decode m lcg1 = (?L + ?s1 + rawbits5 bits) mod 2 ^ bits"
    unfolding dlcg1 dt2 by (rule mod_add3_inner)
  have "prvhash_core_calc bits ?S ?L ?H
      = (?s1 XOR decode m h1, decode m lcg1, decode m h1, decode m lcg1 XOR ?rot)"
    unfolding calc_eq_spec_step[OF ev] spec_step_def Let_def dh dl by (rule refl)
  then show ?thesis
    using run lseed2 llcg1 lh1' lout dseed2 dout ds1 drs by simp
qed

lemma word_rel_decode: "length v = bits \<Longrightarrow> word_rel bits m v (decode m v)"
  using decode_nonneg[of m v] decode_less[of m v] by (simp add: word_rel_def)

lemma word_rel_inibits: "word_rel bits m (inibits bits c) c"
  by (simp add: word_rel_def length_inibits decode_inibits)

lemma calc_mod:
  assumes "even bits"
  shows "prvhash_core_calc bits (seed mod 2 ^ bits) (lcg mod 2 ^ bits) (h mod 2 ^ bits)
       = prvhash_core_calc bits seed lcg h"
  unfolding calc_eq_spec_step[OF assms] by (rule spec_step_mod)

lemma core_call_mirror:
  assumes ev: "even bits" and pos: "0 < bits"
    and rs: "word_rel bits m sv s" and rl: "word_rel bits m lv l"
    and rh: "list_all2 (word_rel bits m) hv h" and i: "i < length h"
  shows "\<exists>sv' lv' hw' ov.
      core_call (prvhash_core_sat bits) lane sv lv hv i slog
        = Some (sv', lv', hv[i := hw'], ov,
                slog @ [Call lane i sv lv (hv ! i) sv' lv' hw' ov])
    \<and> core_call (calc_core bits) lane s l h i clog
        = Some (decode m sv', decode m lv', h[i := decode m hw'], decode m ov,
                clog @ [Call lane i s l (h ! i) (decode m sv') (decode m lv') (decode m hw') (decode m ov)])
    \<and> length sv' = bits \<and> length lv' = bits \<and> length hw' = bits \<and> length ov = bits"
proof -
  have len: "length hv = length h" using rh by (rule list_all2_lengthD)
  have rhi: "word_rel bits m (hv ! i) (h ! i)"
    using rh i by (simp add: list_all2_nthD2)
  have ls: "length sv = bits" and ll: "length lv = bits" and lh: "length (hv ! i) = bits"
    using rs rl rhi by (simp_all add: word_rel_def)
  obtain sv' lv' hw' ov where step: "prvhash_core_sat bits sv lv (hv ! i) = Some (sv', lv', hw', ov)"
    and lens: "length sv' = bits" "length lv' = bits" "length hw' = bits" "length ov = bits"
    and dec: "(decode m sv', decode m lv', decode m hw', decode m ov)
          = prvhash_core_calc bits (decode m sv) (decode m lv) (decode m (hv ! i))"
    using sat_step_decode[OF ev pos ls ll lh, of m] by blast
  have "prvhash_core_calc bits (decode m sv) (decode m lv) (decode m (hv ! i))
      = prvhash_core_calc bits s l (h ! i)"
    using rs rl rhi calc_mod[OF ev, of s l "h ! i"] by (simp add: word_rel_def)
  then have c: "prvhash_core_calc bits s l (h ! i)
      = (decode m sv', decode m lv', decode m hw', decode m ov)"
    using dec by simp
  show ?thesis
    using step c i len lens by (simp add: core_call_def calc_core_def)
qed

lemma call_seq_mirror:
  assumes ev: "even bits" and pos: "0 < bits"
  shows "word_rel bits m sv s \<Longrightarrow> word_rel bits m lv l \<Longrightarrow>
    list_all2 (word_rel bits m) hv h \<Longrightarrow> \<forall>i\<in>set idxs. i < length h \<Longrightarrow>
    map (decode_result m) slog = map call_result clog \<Longrightarrow>
    \<exists>sst slog' cst clog'.
      call_seq (prvhash_core_sat bits) idxs (sv, lv, hv) slog = Some (sst, slog')
    \<and> call_seq (calc_core bits) idxs (s, l, h) clog = Some (cst, clog')
    \<and> length clog' = length clog + length idxs
    \<and> map (decode_result m) slog' = map call_result clog'"
proof (induction idxs arbitrary: sv s lv l hv h slog clog)
  case Nil
  then show ?case by simp
next
  case (Cons i idxs)
  have i: "i < length h" using Cons.prems(4) by simp
  from core_call_mirror[OF ev pos Cons.prems(1,2,3) i, of 0 slog clog]
  obtain sv' lv' hw' ov where
    sc: "core_call (prvhash_core_sat bits) 0 sv lv hv i slog
        = Some (sv', lv', hv[i := hw'], ov,
                slog @ [Call 0 i sv lv (hv ! i) sv' lv' hw' ov])"
    and cc: "core_call (calc_core bits) 0 s l h i clog
        = Some (decode m sv', decode m lv', h[i := decode m hw'], decode m ov,
                clog @ [Call 0 i s l (h ! i) (decode m sv') (decode m lv') (decode m hw') (decode m ov)])"
    and lens: "length sv' = bits" "length lv' = bits" "length hw' = bits" "length ov = bits"
    by blast
  let ?slog = "slog @ [Call 0 i sv lv (hv ! i) sv' lv' hw' ov]"
  let ?clog = "clog @ [Call 0 i s l (h ! i) (decode m sv') (decode m lv') (decode m hw') (decode m ov)]"
  have r1: "word_rel bits m sv' (decode m sv')" and r2: "word_rel bits m lv' (decode m lv')"
    and r3: "word_rel bits m hw' (decode m hw')"
    using lens by (simp_all add: word_rel_decode)
  have r4: "list_all2 (word_rel bits m) (hv[i := hw']) (h[i := decode m hw'])"
    using Cons.prems(3) r3 by (rule list_all2_update_cong)
  have r5: "\<forall>j\<in>set idxs. j < length (h[i := decode m hw'])"
    using Cons.prems(4) by simp
  have e: "decode_result m (Call 0 i sv lv (hv ! i) sv' lv' hw' ov)
      = call_result (Call 0 i s l (h ! i) (decode m sv') (decode m lv') (decode m hw') (decode m ov))"
    by (simp add: decode_result_def call_result_def)
  have r6: "map (decode_result m) ?slog = map call_result ?clog"
    by (simp add: Cons.prems(5) e)
  from Cons.IH[OF r1 r2 r4 r5 r6]
  obtain sst slog' cst clog' where
    "call_seq (prvhash_core_sat bits) idxs (sv', lv', hv[i := hw']) ?slog = Some (sst, slog')"
    "call_seq (calc_core bits) idxs (decode m sv', decode m lv', h[i := decode m hw']) ?clog = Some (cst, clog')"
    "length clog' = length ?clog + length idxs"
    "map (decode_result m) slog' = map call_result clog'"
    by blast
  then show ?case using sc cc by (simp del: split_paired_Ex)
qed

text \<open>
  Claim C1 (mirror property). For every even state width (of at least two bits, as the
  run configuration requires) and every sequence of calls, given by the hash element
  each call uses, the symbolic step run on the constants of given integers and the
  concrete step run on the integers both complete, and at every call the decoded
  \<open>(seed, lcg, hash_word, output)\<close> of the symbolic run equals that of the concrete run,
  under every assignment.
\<close>

theorem mirror_property:
  assumes "even bits" and "0 < bits" and "\<forall>i\<in>set idxs. i < length hs"
  shows "\<exists>sst slog cst clog.
      call_seq (prvhash_core_sat bits) idxs
         (inibits bits seed, inibits bits lcg, map (inibits bits) hs) [] = Some (sst, slog)
    \<and> call_seq (calc_core bits) idxs (seed, lcg, hs) [] = Some (cst, clog)
    \<and> length clog = length idxs
    \<and> map (decode_result m) slog = map call_result clog"
proof -
  have h: "list_all2 (word_rel bits m) (map (inibits bits) hs) hs"
    by (simp add: list_all2_conv_all_nth word_rel_inibits)
  show ?thesis
    using call_seq_mirror[OF assms(1,2) word_rel_inibits word_rel_inibits h assms(3),
        where slog = "[]" and clog = "[]"]
    by (simp del: split_paired_Ex)
qed

theorem mirror_property_witness:
  "even (2::nat) \<and> (0::nat) < 2 \<and>
   (\<exists>sst slog cst clog.
      call_seq (prvhash_core_sat 2) [0, 1, 0]
         (inibits 2 3, inibits 2 1, map (inibits 2) [1, 2]) [] = Some (sst, slog)
    \<and> call_seq (calc_core 2) [0, 1, 0] (3, 1, [1, 2]) [] = Some (cst, clog)
    \<and> length clog = length [0::nat, 1, 0]
    \<and> map (decode_result (\<lambda>_. False)) slog = map call_result clog)"
proof -
  have a: "even (2::nat)" and b: "(0::nat) < 2"
    and c: "\<forall>i\<in>set [0, 1, 0]. i < length [1, 2::int]"
    by simp_all
  show ?thesis
    using a b c mirror_property[OF a b c, where seed = 3 and lcg = 1 and m = "\<lambda>_. False"] by blast
qed

section \<open>The top bit of lcg\<close>

lemma multiplier_top_bit:
  fixes lcg lcg' :: int
  assumes "0 < w" and "lcg mod 2 ^ (w - 1) = lcg' mod 2 ^ (w - 1)"
  shows "(seed * (lcg * 2 + 1)) mod 2 ^ w = (seed * (lcg' * 2 + 1)) mod 2 ^ w"
proof -
  obtain k where k: "w = Suc k" using assms(1) by (cases w) simp_all
  have e: "lcg mod 2 ^ k = lcg' mod 2 ^ k" using assms(2) k by simp
  have "(lcg * 2 + 1) mod 2 ^ w = 1 + 2 * (lcg mod 2 ^ k)" for lcg :: int
  proof -
    have "lcg * 2 + 1 = 1 + 2 * lcg" by simp
    then show ?thesis unfolding k by (simp only: power_Suc pos_zmod_mult_2 zero_le_power zero_le_numeral)
  qed
  then have "(lcg * 2 + 1) mod 2 ^ w = (lcg' * 2 + 1) mod 2 ^ w"
    using e by simp
  then show ?thesis by (rule mod_mult_cong[OF refl])
qed

text \<open>
  Claim C9. For every width of at least one bit (in particular every even width) and two
  step inputs that differ only in the most significant bit of \<open>lcg\<close>, the concrete step
  returns the same seed and the same hash word; only the returned \<open>lcg\<close> and the output
  may differ. The symbolic step builds its multiplier from all bits of \<open>lcg\<close> but the
  last, so two bit-vectors \<open>lcg\<close> that agree on all bits but the last give the same
  seed and hash-word formulas.
\<close>

theorem lcg_top_bit_independent:
  assumes "0 < w" and "lcg mod 2 ^ (w - 1) = lcg' mod 2 ^ (w - 1)"
    and "length lcgv = length lcgv'" and "butlast lcgv = butlast lcgv'"
  shows "fst (prvhash_core_calc w seed lcg h) = fst (prvhash_core_calc w seed lcg' h)
       \<and> fst (snd (snd (prvhash_core_calc w seed lcg h)))
           = fst (snd (snd (prvhash_core_calc w seed lcg' h)))
       \<and> map_option (\<lambda>(s, l, hw, out). (s, hw)) (prvhash_core_sat w seedv lcgv hv)
           = map_option (\<lambda>(s, l, hw, out). (s, hw)) (prvhash_core_sat w seedv lcgv' hv)"
proof -
  have m: "(seed * (lcg * 2 + 1)) mod 2 ^ w = (seed * (lcg' * 2 + 1)) mod 2 ^ w"
    using assms(1,2) by (rule multiplier_top_bit)
  have c: "fst (prvhash_core_calc w seed lcg h) = fst (prvhash_core_calc w seed lcg' h)
       \<and> fst (snd (snd (prvhash_core_calc w seed lcg h)))
           = fst (snd (snd (prvhash_core_calc w seed lcg' h)))"
    unfolding prvhash_core_calc_def Let_def and_bmask m by simp
  have s: "map_option (\<lambda>(s, l, hw, out). (s, hw)) (prvhash_core_sat w seedv lcgv hv)
           = map_option (\<lambda>(s, l, hw, out). (s, hw)) (prvhash_core_sat w seedv lcgv' hv)"
    unfolding prvhash_core_sat_def assms(4) Let_def
    using assms(3)
    by (auto simp add: add_def xor_bv_def length_add_loop split: Option.bind_splits if_splits)
  show ?thesis using c s by simp
qed

theorem lcg_top_bit_independent_witness:
  "(0::nat) < 2 \<and> (1::int) mod 2 ^ (2 - 1) = 3 mod 2 ^ (2 - 1)
   \<and> length [BVar 0, BVar 1] = length [BVar 0, BVar 2]
   \<and> butlast [BVar 0, BVar 1] = butlast [BVar 0, BVar 2]
   \<and> fst (prvhash_core_calc 2 3 1 2) = fst (prvhash_core_calc 2 3 3 2)
   \<and> fst (snd (snd (prvhash_core_calc 2 3 1 2))) = fst (snd (snd (prvhash_core_calc 2 3 3 2)))
   \<and> map_option (\<lambda>(s, l, hw, out). (s, hw))
          (prvhash_core_sat 2 (inibits 2 3) [BVar 0, BVar 1] (inibits 2 2))
       = map_option (\<lambda>(s, l, hw, out). (s, hw))
          (prvhash_core_sat 2 (inibits 2 3) [BVar 0, BVar 2] (inibits 2 2))"
proof -
  have a: "(0::nat) < 2" and b: "(1::int) mod 2 ^ (2 - 1) = 3 mod 2 ^ (2 - 1)"
    and c: "length [BVar 0, BVar 1] = length [BVar 0, BVar 2]"
    and d: "butlast [BVar 0, BVar 1] = butlast [BVar 0, BVar 2]"
    by simp_all
  show ?thesis
    using a b c d lcg_top_bit_independent[OF a b c d, of 3 2 "inibits 2 3" "inibits 2 2"]
    by blast
qed

section \<open>The loops of the harness\<close>

lemma core_ok_calc: "core_ok (\<lambda>_. True) (calc_core bits)"
  by (simp add: core_ok_def calc_core_def prod_eq_iff)

lemma core_ok_sat:
  assumes "0 < bits"
  shows "core_ok (\<lambda>v. length v = bits) (prvhash_core_sat bits)"
  unfolding core_ok_def
proof (intro allI impI)
  fix s l h :: "bitf list"
  assume a: "length s = bits \<and> length l = bits \<and> length h = bits"
  have sne: "s \<noteq> []" using a assms by auto
  have lm: "length s = length (BConst True # butlast l)" using a assms by simp
  obtain seed1 where seed1: "mul s (BConst True # butlast l) = Some seed1"
    and lseed1: "length seed1 = bits"
    using mul_Some[OF lm sne, of "\<lambda>_. False"] a by auto
  let ?rs = "drop (bits2 bits) seed1 @ take (bits2 bits) seed1"
  have lrs: "length ?rs = bits" using lseed1 by simp
  show "\<exists>s' l' h' out. prvhash_core_sat bits s l h = Some (s', l', h', out)
      \<and> length s' = bits \<and> length l' = bits \<and> length h' = bits \<and> length out = bits"
    unfolding prvhash_core_sat_def
    using a lseed1 lrs
    by (simp add: seed1 add_def xor_bv_def BITRA_def BITR5_def length_inibits length_add_loop Let_def)
qed

lemma engine_ok_calc: "engine_ok (\<lambda>_. True) (calc_engine bits)"
  by (simp add: engine_ok_def calc_engine_def core_ok_calc)

lemma engine_ok_sat:
  assumes "0 < bits"
  shows "engine_ok (\<lambda>v. length v = bits) (sat_engine bits)"
  using core_ok_sat[OF assms]
  by (simp add: engine_ok_def sat_engine_def xor_bv_def length_inibits)

lemma good_next_x: "good P hc (next_x st) = good P hc st"
  by (cases st) (simp add: good_def next_x_def)

lemma st_next_x:
  "st_x (next_x st) = Suc (st_x st)" "st_seed (next_x st) = st_seed st"
  "st_lcg (next_x st) = st_lcg st"
  by (cases st; simp add: st_x_def st_seed_def st_lcg_def next_x_def)+

lemma list_all_update: "list_all P h \<Longrightarrow> P v \<Longrightarrow> list_all P (h[i := v])"
  by (auto simp add: list_all_iff dest: set_update_subset_insert[THEN subsetD])

lemma core_call_ok:
  assumes "core_ok P core" and "P seed" and "P lcg" and "list_all P h" and "i < length h"
  shows "\<exists>s' l' hw out.
      core_call core lane seed lcg h i log
        = Some (s', l', h[i := hw], out, log @ [Call lane i seed lcg (h ! i) s' l' hw out])
      \<and> P s' \<and> P l' \<and> P hw \<and> P out
      \<and> core seed lcg (h ! i) = Some (s', l', hw, out)"
proof -
  have "P (h ! i)" using assms(4,5) by (simp add: list_all_length)
  then obtain s' l' hw out where c: "core seed lcg (h ! i) = Some (s', l', hw, out)"
    and p: "P s'" "P l'" "P hw" "P out"
    using assms(1,2,3) unfolding core_ok_def by blast
  have "\<not> length h \<le> i" using assms(5) by simp
  then show ?thesis using c p by (simp add: core_call_def)
qed

lemma main_call_ok:
  assumes "core_ok P core" and "0 < hc" and "good P hc st"
  shows "\<exists>st' out e. main_call core hc st log = Some (st', out, log @ [e])
      \<and> good P hc st' \<and> P out \<and> st_x st' = st_x st
      \<and> lane_index e = (0, st_x st mod hc) \<and> call_out e = out
      \<and> call_seed_in e = st_seed st \<and> call_lcg_in e = st_lcg st
      \<and> st_seed st' = call_seed e \<and> st_lcg st' = call_lcg e"
proof -
  obtain seed lcg h x where st: "st = (seed, lcg, h, x)" by (cases st)
  have g: "P seed" "P lcg" "length h = hc" "list_all P h"
    using assms(3) by (simp_all add: good_def st)
  have i: "x mod hc < length h" using assms(2) g(3) by simp
  obtain s' l' hw out where c: "core_call core 0 seed lcg h (x mod hc) log
        = Some (s', l', h[x mod hc := hw], out,
                log @ [Call 0 (x mod hc) seed lcg (h ! (x mod hc)) s' l' hw out])"
    and p: "P s'" "P l'" "P hw" "P out"
    using core_call_ok[OF assms(1) g(1,2,4) i, of 0 log] by blast
  have "list_all P (h[x mod hc := hw])" using g(4) p(3) by (rule list_all_update)
  then show ?thesis
    using c p g assms(2)
    by (simp add: st main_call_def hash_index_def good_def st_x_def st_seed_def st_lcg_def
        lane_index_def)
qed

lemma init_loop_ok:
  assumes "core_ok P core" and "0 < hc"
  shows "good P hc st \<Longrightarrow>
    \<exists>st' es. init_loop core hc n st log = Some (st', log @ es)
      \<and> good P hc st' \<and> st_x st' = st_x st \<and> length es = n
      \<and> map lane_index es = replicate n (0, st_x st mod hc)"
proof (induction n arbitrary: st log)
  case 0
  then show ?case by simp
next
  case (Suc n)
  obtain st1 out e where m: "main_call core hc st log = Some (st1, out, log @ [e])"
    and g1: "good P hc st1" and x1: "st_x st1 = st_x st"
    and e: "lane_index e = (0, st_x st mod hc)"
    using main_call_ok[OF assms Suc.prems, of log] by blast
  obtain st' es where l: "init_loop core hc n st1 (log @ [e]) = Some (st', (log @ [e]) @ es)"
    and r: "good P hc st'" "st_x st' = st_x st1" "length es = n"
      "map lane_index es = replicate n (0, st_x st1 mod hc)"
    using Suc.IH[OF g1, of "log @ [e]"] by blast
  have "init_loop core hc (Suc n) st log = Some (st', log @ (e # es))"
    using m l by simp
  moreover have "length (e # es) = Suc n" using r(3) by simp
  moreover have "map lane_index (e # es) = replicate (Suc n) (0, st_x st mod hc)"
    using r(4) e x1 by simp
  moreover have "st_x st' = st_x st" using r(2) x1 by simp
  ultimately show ?case using r(1) by (intro exI[of _ st'] exI[of _ "e # es"] conjI)
qed

lemma fill_loop_ok:
  assumes "core_ok P core" and "0 < hc"
  shows "good P hc st \<Longrightarrow>
    \<exists>st' es. fill_loop core hc n st log = Some (st', log @ es)
      \<and> good P hc st' \<and> st_x st' = st_x st + n \<and> length es = n
      \<and> map lane_index es = map (\<lambda>j. (0, (st_x st + j) mod hc)) [0..<n]"
proof (induction n arbitrary: st log)
  case 0
  then show ?case by simp
next
  case (Suc n)
  obtain st1 out e where m: "main_call core hc st log = Some (st1, out, log @ [e])"
    and g1: "good P hc st1" and x1: "st_x st1 = st_x st"
    and e: "lane_index e = (0, st_x st mod hc)"
    using main_call_ok[OF assms Suc.prems, of log] by blast
  have g2: "good P hc (next_x st1)" using g1 by (simp add: good_next_x)
  obtain st' es where l: "fill_loop core hc n (next_x st1) (log @ [e]) = Some (st', (log @ [e]) @ es)"
    and r: "good P hc st'" "st_x st' = st_x (next_x st1) + n" "length es = n"
      "map lane_index es = map (\<lambda>j. (0, (st_x (next_x st1) + j) mod hc)) [0..<n]"
    using Suc.IH[OF g2, of "log @ [e]"] by blast
  have x2: "st_x (next_x st1) = Suc (st_x st)" using x1 by (simp add: st_next_x)
  have "fill_loop core hc (Suc n) st log = Some (st', log @ (e # es))"
    using m l by simp
  moreover have "length (e # es) = Suc n" using r(3) by simp
  moreover have "map lane_index (e # es) = map (\<lambda>j. (0, (st_x st + j) mod hc)) [0..<Suc n]"
    unfolding map_upt_Suc using r(4) e x2 by simp
  moreover have "st_x st' = st_x st + Suc n" using r(2) x2 by simp
  ultimately show ?case using r(1) by (intro exI[of _ st'] exI[of _ "e # es"] conjI)
qed

lemma engine_ok_core: "engine_ok P eng \<Longrightarrow> core_ok P (e_core eng)"
  by (simp add: engine_ok_def)

lemma engine_ok_xor: "engine_ok P eng \<Longrightarrow> P a \<Longrightarrow> P b \<Longrightarrow> \<exists>c. e_xor eng a b = Some c \<and> P c"
  by (simp add: engine_ok_def)

lemma engine_ok_const: "engine_ok P eng \<Longrightarrow> P (e_const eng v)"
  by (simp add: engine_ok_def)

lemma obs_loop_ok:
  assumes eng: "engine_ok P eng" and hc: "0 < hc"
  shows "good P hc st \<Longrightarrow>
    (\<And>k out a. k \<in> set ks \<Longrightarrow> P out \<Longrightarrow> \<exists>a'. observe k out a = Some a') \<Longrightarrow>
    \<exists>st' acc' es outs. obs_loop eng hc observe ks st acc log = Some (st', acc', log @ es)
      \<and> length es = 2 * length ks
      \<and> map lane_index es = map (\<lambda>j. (0, (st_x st + j) mod hc)) [0..<2 * length ks]
      \<and> length outs = length ks \<and> list_all P outs
      \<and> list_all2 (\<lambda>p out. e_xor eng (fst p) (snd p) = Some out) (pair_outs es) outs
      \<and> observe_fold observe (zip ks outs) acc = Some acc'"
proof (induction ks arbitrary: st acc log)
  case Nil
  show ?case by (rule exI[of _ st], rule exI[of _ acc], rule exI[of _ "[]"], rule exI[of _ "[]"]) simp
next
  case (Cons k ks)
  note core = engine_ok_core[OF eng]
  obtain st1 out1 e1 where m1: "main_call (e_core eng) hc st log = Some (st1, out1, log @ [e1])"
    and g1: "good P hc st1" and p1: "P out1" and x1: "st_x st1 = st_x st"
    and e1: "lane_index e1 = (0, st_x st mod hc)" "call_out e1 = out1"
    using main_call_ok[OF core hc Cons.prems(1), of log] by blast
  have g1': "good P hc (next_x st1)" using g1 by (simp add: good_next_x)
  obtain st2 out2 e2 where
    m2: "main_call (e_core eng) hc (next_x st1) (log @ [e1]) = Some (st2, out2, (log @ [e1]) @ [e2])"
    and g2: "good P hc st2" and p2: "P out2" and x2: "st_x st2 = st_x (next_x st1)"
    and e2: "lane_index e2 = (0, st_x (next_x st1) mod hc)" "call_out e2 = out2"
    using main_call_ok[OF core hc g1', of "log @ [e1]"] by blast
  obtain out where xo: "e_xor eng out1 out2 = Some out" and po: "P out"
    using engine_ok_xor[OF eng p1 p2] by blast
  obtain acc1 where ob: "observe k out acc = Some acc1"
    using Cons.prems(2)[of k out acc] po by auto
  have g2': "good P hc (next_x st2)" using g2 by (simp add: good_next_x)
  have obs': "\<And>k out a. k \<in> set ks \<Longrightarrow> P out \<Longrightarrow> \<exists>a'. observe k out a = Some a'"
    using Cons.prems(2) by simp
  obtain st' acc' es outs where
    l: "obs_loop eng hc observe ks (next_x st2) acc1 ((log @ [e1]) @ [e2])
          = Some (st', acc', ((log @ [e1]) @ [e2]) @ es)"
    and r: "length es = 2 * length ks"
      "map lane_index es = map (\<lambda>j. (0, (st_x (next_x st2) + j) mod hc)) [0..<2 * length ks]"
      "length outs = length ks" "list_all P outs"
      "list_all2 (\<lambda>p out. e_xor eng (fst p) (snd p) = Some out) (pair_outs es) outs"
      "observe_fold observe (zip ks outs) acc1 = Some acc'"
    using Cons.IH[OF g2' obs', of acc1 "(log @ [e1]) @ [e2]"] by blast
  have xa: "st_x (next_x st1) = Suc (st_x st)" using x1 by (simp add: st_next_x)
  have xb: "st_x (next_x st2) = Suc (Suc (st_x st))" using x2 xa by (simp add: st_next_x)
  have run: "obs_loop eng hc observe (k # ks) st acc log = Some (st', acc', log @ (e1 # e2 # es))"
    using m1 m2 xo ob l by simp
  have len: "length (e1 # e2 # es) = 2 * length (k # ks)" using r(1) by simp
  have two: "2 * length (k # ks) = Suc (Suc (2 * length ks))" by simp
  have sched: "map lane_index (e1 # e2 # es)
      = map (\<lambda>j. (0, (st_x st + j) mod hc)) [0..<2 * length (k # ks)]"
    unfolding two map_upt_Suc using r(2) e1(1) e2(1) xa xb by simp
  have lo: "length (out # outs) = length (k # ks)" using r(3) by simp
  have pa: "list_all P (out # outs)" using r(4) po by simp
  have la: "list_all2 (\<lambda>p out. e_xor eng (fst p) (snd p) = Some out)
               (pair_outs (e1 # e2 # es)) (out # outs)"
    using r(5) xo e1(2) e2(2) by simp
  have fo: "observe_fold observe (zip (k # ks) (out # outs)) acc = Some acc'"
    using r(6) ob by simp
  show ?case
    using run len sched lo pa la fo
    by (intro exI[of _ st'] exI[of _ acc'] exI[of _ "e1 # e2 # es"] exI[of _ "out # outs"] conjI)
qed

lemma inject_ok:
  assumes eng: "engine_ok P eng" and g: "good P hc st" and iv: "ivlen \<le> length iv"
    and pos: "ivpos = min (i div 2) ivlen"
  shows "\<exists>st1. inject eng ivlen iv i st ivpos = Some (st1, min (Suc i div 2) ivlen)
      \<and> good P hc st1 \<and> st_x st1 = st_x st
      \<and> mix eng (st_seed st) (nonce_word ivlen iv i) = Some (st_seed st1)
      \<and> mix eng (st_lcg st) (nonce_word ivlen iv i) = Some (st_lcg st1)"
proof -
  obtain seed lcg h x where st: "st = (seed, lcg, h, x)" by (cases st)
  have p: "P seed" "P lcg" "length h = hc" "list_all P h"
    using g by (simp_all add: good_def st)
  have odd1: "(i AND 1 = 1) = odd i" by (simp add: and_one_eq mod_2_eq_odd)
  have odd2: "(i mod 2 = Suc 0) = odd i" by presburger
  show ?thesis
  proof (cases "odd i \<and> i div 2 < ivlen")
    case True
    then have ip: "ivpos = i div 2" and lt: "ivpos < ivlen" and li: "\<not> length iv \<le> ivpos"
      using pos iv by simp_all
    have nx: "min (Suc i div 2) ivlen = ivpos + 1"
      using True ip by (auto elim!: oddE)
    have pc: "P (e_const eng (iv ! ivpos))" by (rule engine_ok_const[OF eng])
    obtain seed' where s: "e_xor eng seed (e_const eng (iv ! ivpos)) = Some seed'" and ps: "P seed'"
      using engine_ok_xor[OF eng p(1) pc] by blast
    obtain lcg' where l: "e_xor eng lcg (e_const eng (iv ! ivpos)) = Some lcg'" and pl: "P lcg'"
      using engine_ok_xor[OF eng p(2) pc] by blast
    have nw: "nonce_word ivlen iv i = Some (iv ! ivpos)"
      using True ip by (simp add: nonce_word_def)
    show ?thesis
      using True lt li s l ps pl p nx
      by (simp add: st inject_def odd1 odd2 nw mix_def good_def st_x_def st_seed_def st_lcg_def)
  next
    case False
    then have nx: "min (Suc i div 2) ivlen = ivpos"
      using pos by (cases "odd i") (auto elim!: oddE)
    have "\<not> (odd i \<and> ivpos < ivlen)" using False pos by auto
    then have c: "(odd i \<and> ivpos < ivlen) = False" by simp
    have nw: "nonce_word ivlen iv i = None"
      using False by (simp add: nonce_word_def)
    have "inject eng ivlen iv i st ivpos = Some (st, ivpos)"
      by (simp add: st inject_def odd1 odd2 c)
    then show ?thesis
      using g nx by (simp add: nw mix_def)
  qed
qed

lemma iv_loop_ok:
  assumes eng: "engine_ok P eng" and hc: "0 < hc" and iv: "ivlen \<le> length iv"
  shows "good P hc st \<Longrightarrow> ivpos = min (i div 2) ivlen \<Longrightarrow>
    \<exists>st' es. iv_loop eng hc ivlen iv [i..<i + n] st ivpos log
        = Some (st', min ((i + n) div 2) ivlen, log @ es)
      \<and> good P hc st' \<and> st_x st' = st_x st + n \<and> length es = n
      \<and> map lane_index es = map (\<lambda>j. (0, (st_x st + j) mod hc)) [0..<n]
      \<and> iv_trace eng ivlen iv i (st_seed st) (st_lcg st) es"
proof (induction n arbitrary: st ivpos i log)
  case 0
  then show ?case by simp
next
  case (Suc n)
  note core = engine_ok_core[OF eng]
  obtain st1 where inj: "inject eng ivlen iv i st ivpos = Some (st1, min (Suc i div 2) ivlen)"
    and g1: "good P hc st1" and x1: "st_x st1 = st_x st"
    and ms: "mix eng (st_seed st) (nonce_word ivlen iv i) = Some (st_seed st1)"
    and ml: "mix eng (st_lcg st) (nonce_word ivlen iv i) = Some (st_lcg st1)"
    using inject_ok[OF eng Suc.prems(1) iv Suc.prems(2)] by blast
  obtain st2 out e where m: "main_call (e_core eng) hc st1 log = Some (st2, out, log @ [e])"
    and g2: "good P hc st2" and x2: "st_x st2 = st_x st1"
    and e: "lane_index e = (0, st_x st1 mod hc)"
      "call_seed_in e = st_seed st1" "call_lcg_in e = st_lcg st1"
      "st_seed st2 = call_seed e" "st_lcg st2 = call_lcg e"
    using main_call_ok[OF core hc g1, of log] by blast
  have g2': "good P hc (next_x st2)" using g2 by (simp add: good_next_x)
  obtain st' es where
    l: "iv_loop eng hc ivlen iv [Suc i..<Suc i + n] (next_x st2) (min (Suc i div 2) ivlen) (log @ [e])
          = Some (st', min ((Suc i + n) div 2) ivlen, (log @ [e]) @ es)"
    and r: "good P hc st'" "st_x st' = st_x (next_x st2) + n" "length es = n"
      "map lane_index es = map (\<lambda>j. (0, (st_x (next_x st2) + j) mod hc)) [0..<n]"
      "iv_trace eng ivlen iv (Suc i) (st_seed (next_x st2)) (st_lcg (next_x st2)) es"
    using Suc.IH[OF g2' refl, where log = "log @ [e]"] by blast
  have xx: "st_x (next_x st2) = Suc (st_x st)" using x1 x2 by (simp add: st_next_x)
  have "[i..<i + Suc n] = i # [Suc i..<Suc i + n]"
    by (simp add: upt_conv_Cons del: upt_Suc)
  then have run: "iv_loop eng hc ivlen iv [i..<i + Suc n] st ivpos log
      = Some (st', min ((i + Suc n) div 2) ivlen, log @ (e # es))"
    using inj m l by simp
  have sched: "map lane_index (e # es) = map (\<lambda>j. (0, (st_x st + j) mod hc)) [0..<Suc n]"
    unfolding map_upt_Suc using r(4) e(1) x1 xx by simp
  have tr: "iv_trace eng ivlen iv i (st_seed st) (st_lcg st) (e # es)"
    using ms ml e r(5) by (simp add: st_next_x)
  have "st_x st' = st_x st + Suc n" using r(2) xx by simp
  moreover have "length (e # es) = Suc n" using r(3) by simp
  ultimately show ?case
    using run sched tr r(1) by (intro exI[of _ st'] exI[of _ "e # es"] conjI)
qed

lemma round_schedule_Suc:
  "round_schedule hc (Suc x) (Suc x2) = (\<lambda>r. round_schedule hc x x2 (Suc r))"
  by (rule ext) (simp add: round_schedule_def)

lemma fw_round_ok:
  assumes eng: "engine_ok P eng" and hc: "0 < hc" and g: "good P hc st" and f: "fw_good P fw"
  shows "\<exists>st' fw' e0 e1 e2 e3 e4.
      fw_round eng hc st fw log
        = Some (st', fw', (call_out e1, call_out e2, call_out e3, call_out e4),
                log @ [e0, e1, e2, e3, e4])
      \<and> good P hc st' \<and> fw_good P fw'
      \<and> st_x st' = Suc (st_x st) \<and> fw_x2 fw' = Suc (fw_x2 fw)
      \<and> map lane_index [e0, e1, e2, e3, e4] = round_schedule hc (st_x st) (fw_x2 fw) 0
      \<and> P (call_out e1) \<and> P (call_out e2) \<and> P (call_out e3) \<and> P (call_out e4)
      \<and> (\<forall>es. fw_trace eng fw' es \<longrightarrow> fw_trace eng fw (e0 # e1 # e2 # e3 # e4 # es))"
proof -
  note core = engine_ok_core[OF eng]
  obtain seed1 lcg1 seed2 lcg2 seed3 lcg3 seed4 lcg4 h2 x2
    where fw: "fw = ((seed1, lcg1), (seed2, lcg2), (seed3, lcg3), (seed4, lcg4), h2, x2)"
    by (cases fw) auto
  have p: "P seed1" "P lcg1" "P seed2" "P lcg2" "P seed3" "P lcg3" "P seed4" "P lcg4"
    and lh: "length h2 = 5" and ph: "list_all P h2"
    using f by (simp_all add: fw_good_def fw)
  obtain st1 out1 e0 where m: "main_call (e_core eng) hc st log = Some (st1, out1, log @ [e0])"
    and g1: "good P hc st1" and po: "P out1" and x1: "st_x st1 = st_x st"
    and e0: "lane_index e0 = (0, st_x st mod hc)" "call_out e0 = out1"
    using main_call_ok[OF core hc g, of log] by blast
  obtain seed4x where sx: "e_xor eng seed4 out1 = Some seed4x" and psx: "P seed4x"
    using engine_ok_xor[OF eng p(7) po] by blast
  let ?i1 = "(x2 + 0) mod 5" and ?i2 = "(x2 + 1) mod 5" and ?i3 = "(x2 + 2) mod 5"
    and ?i4 = "(x2 + 3) mod 5"
  have i1: "?i1 < length h2" using lh by simp
  obtain s1 l1 w1 o1 where c1: "core_call (e_core eng) 1 seed1 lcg1 h2 ?i1 (log @ [e0])
        = Some (s1, l1, h2[?i1 := w1], o1,
                (log @ [e0]) @ [Call 1 ?i1 seed1 lcg1 (h2 ! ?i1) s1 l1 w1 o1])"
    and q1: "P s1" "P l1" "P w1" "P o1"
    and k1: "e_core eng seed1 lcg1 (h2 ! ?i1) = Some (s1, l1, w1, o1)"
    using core_call_ok[OF core p(1,2) ph i1, of 1 "log @ [e0]"] by blast
  let ?e1 = "Call 1 ?i1 seed1 lcg1 (h2 ! ?i1) s1 l1 w1 o1"
  let ?h2a = "h2[?i1 := w1]"
  have pha: "list_all P ?h2a" using ph q1(3) by (rule list_all_update)
  have i2: "?i2 < length ?h2a" using lh by simp
  obtain s2 l2 w2 o2 where c2: "core_call (e_core eng) 2 seed2 lcg2 ?h2a ?i2 ((log @ [e0]) @ [?e1])
        = Some (s2, l2, ?h2a[?i2 := w2], o2,
                ((log @ [e0]) @ [?e1]) @ [Call 2 ?i2 seed2 lcg2 (?h2a ! ?i2) s2 l2 w2 o2])"
    and q2: "P s2" "P l2" "P w2" "P o2"
    and k2: "e_core eng seed2 lcg2 (?h2a ! ?i2) = Some (s2, l2, w2, o2)"
    using core_call_ok[OF core p(3,4) pha i2, of 2 "(log @ [e0]) @ [?e1]"] by blast
  let ?e2 = "Call 2 ?i2 seed2 lcg2 (?h2a ! ?i2) s2 l2 w2 o2"
  let ?h2b = "?h2a[?i2 := w2]"
  have phb: "list_all P ?h2b" using pha q2(3) by (rule list_all_update)
  have i3: "?i3 < length ?h2b" using lh by simp
  obtain s3 l3 w3 o3 where c3: "core_call (e_core eng) 3 seed3 lcg3 ?h2b ?i3
          (((log @ [e0]) @ [?e1]) @ [?e2])
        = Some (s3, l3, ?h2b[?i3 := w3], o3,
                (((log @ [e0]) @ [?e1]) @ [?e2]) @ [Call 3 ?i3 seed3 lcg3 (?h2b ! ?i3) s3 l3 w3 o3])"
    and q3: "P s3" "P l3" "P w3" "P o3"
    and k3: "e_core eng seed3 lcg3 (?h2b ! ?i3) = Some (s3, l3, w3, o3)"
    using core_call_ok[OF core p(5,6) phb i3, of 3 "((log @ [e0]) @ [?e1]) @ [?e2]"] by blast
  let ?e3 = "Call 3 ?i3 seed3 lcg3 (?h2b ! ?i3) s3 l3 w3 o3"
  let ?h2c = "?h2b[?i3 := w3]"
  have phc: "list_all P ?h2c" using phb q3(3) by (rule list_all_update)
  have i4: "?i4 < length ?h2c" using lh by simp
  obtain s4 l4 w4 o4 where c4: "core_call (e_core eng) 4 seed4x lcg4 ?h2c ?i4
          ((((log @ [e0]) @ [?e1]) @ [?e2]) @ [?e3])
        = Some (s4, l4, ?h2c[?i4 := w4], o4,
                ((((log @ [e0]) @ [?e1]) @ [?e2]) @ [?e3])
                  @ [Call 4 ?i4 seed4x lcg4 (?h2c ! ?i4) s4 l4 w4 o4])"
    and q4: "P s4" "P l4" "P w4" "P o4"
    and k4: "e_core eng seed4x lcg4 (?h2c ! ?i4) = Some (s4, l4, w4, o4)"
    using core_call_ok[OF core psx p(8) phc i4, of 4 "(((log @ [e0]) @ [?e1]) @ [?e2]) @ [?e3]"]
    by blast
  let ?e4 = "Call 4 ?i4 seed4x lcg4 (?h2c ! ?i4) s4 l4 w4 o4"
  let ?h2d = "?h2c[?i4 := w4]"
  have phd: "list_all P ?h2d" using phc q4(3) by (rule list_all_update)
  let ?fw' = "((s1, l1), (s2, l2), (s3, l3), (s4, l4), ?h2d, x2 + 1)"
  have run: "fw_round eng hc st fw log
      = Some (next_x st1, ?fw', (call_out ?e1, call_out ?e2, call_out ?e3, call_out ?e4),
              log @ [e0, ?e1, ?e2, ?e3, ?e4])"
    unfolding fw_round_def fw using m sx c1 c2 c3 c4 by simp
  have gs: "good P hc (next_x st1)" using g1 by (simp add: good_next_x)
  have gf: "fw_good P ?fw'" using q1 q2 q3 q4 phd lh by (simp add: fw_good_def)
  have xs: "st_x (next_x st1) = Suc (st_x st)" using x1 by (simp add: st_next_x)
  have xf: "fw_x2 ?fw' = Suc (fw_x2 fw)" by (simp add: fw_x2_def fw)
  have sch: "map lane_index [e0, ?e1, ?e2, ?e3, ?e4] = round_schedule hc (st_x st) (fw_x2 fw) 0"
    using e0(1) by (simp add: round_schedule_def lane_index_def fw_x2_def fw)
  have tr: "\<forall>es. fw_trace eng ?fw' es \<longrightarrow> fw_trace eng fw (e0 # ?e1 # ?e2 # ?e3 # ?e4 # es)"
    using e0 sx k1 k2 k3 k4
    by (simp add: fw fw_entry_def step_ok_def call_result_def lane_index_def Let_def)
  have po: "P (call_out ?e1)" "P (call_out ?e2)" "P (call_out ?e3)" "P (call_out ?e4)"
    using q1(4) q2(4) q3(4) q4(4) by simp_all
  show ?thesis
    by (intro exI[of _ "next_x st1"] exI[of _ ?fw'] exI[of _ e0] exI[of _ ?e1] exI[of _ ?e2]
        exI[of _ ?e3] exI[of _ ?e4] conjI) (rule run gs gf xs xf sch po tr)+
qed

lemma fw_loop_ok:
  assumes eng: "engine_ok P eng" and hc: "0 < hc"
  shows "good P hc st \<Longrightarrow> fw_good P fw \<Longrightarrow>
    (\<And>k outs a. k \<in> set ks \<Longrightarrow> \<exists>a'. observe k outs a = Some a') \<Longrightarrow>
    \<exists>st' fw' acc' es. fw_loop eng hc observe ks st fw acc log = Some (st', fw', acc', log @ es)
      \<and> length es = 5 * length ks
      \<and> map lane_index es
          = concat (map (round_schedule hc (st_x st) (fw_x2 fw)) [0..<length ks])
      \<and> fw_trace eng fw es
      \<and> length (round_outs es) = length ks
      \<and> observe_fold observe (zip ks (round_outs es)) acc = Some acc'"
proof (induction ks arbitrary: st fw acc log)
  case Nil
  show ?case
    by (rule exI[of _ st], rule exI[of _ fw], rule exI[of _ acc], rule exI[of _ "[]"]) simp
next
  case (Cons k ks)
  obtain st1 fw1 e0 e1 e2 e3 e4 where
    rd: "fw_round eng hc st fw log
        = Some (st1, fw1, (call_out e1, call_out e2, call_out e3, call_out e4),
                log @ [e0, e1, e2, e3, e4])"
    and g1: "good P hc st1" and f1: "fw_good P fw1"
    and x1: "st_x st1 = Suc (st_x st)" and y1: "fw_x2 fw1 = Suc (fw_x2 fw)"
    and sch: "map lane_index [e0, e1, e2, e3, e4] = round_schedule hc (st_x st) (fw_x2 fw) 0"
    and tr: "\<forall>es. fw_trace eng fw1 es \<longrightarrow> fw_trace eng fw (e0 # e1 # e2 # e3 # e4 # es)"
    using fw_round_ok[OF eng hc Cons.prems(1,2), of log] by blast
  let ?outs = "(call_out e1, call_out e2, call_out e3, call_out e4)"
  obtain acc1 where ob: "observe k ?outs acc = Some acc1"
    using Cons.prems(3)[of k ?outs acc] by auto
  have obs': "\<And>k outs a. k \<in> set ks \<Longrightarrow> \<exists>a'. observe k outs a = Some a'"
    using Cons.prems(3) by simp
  obtain st' fw' acc' es where
    l: "fw_loop eng hc observe ks st1 fw1 acc1 (log @ [e0, e1, e2, e3, e4])
          = Some (st', fw', acc', (log @ [e0, e1, e2, e3, e4]) @ es)"
    and r: "length es = 5 * length ks"
      "map lane_index es = concat (map (round_schedule hc (st_x st1) (fw_x2 fw1)) [0..<length ks])"
      "fw_trace eng fw1 es" "length (round_outs es) = length ks"
      "observe_fold observe (zip ks (round_outs es)) acc1 = Some acc'"
    using Cons.IH[OF g1 f1 obs', where acc = acc1 and log = "log @ [e0, e1, e2, e3, e4]"]
    by blast
  let ?es = "e0 # e1 # e2 # e3 # e4 # es"
  have run: "fw_loop eng hc observe (k # ks) st fw acc log = Some (st', fw', acc', log @ ?es)"
    using rd ob l by simp
  have len: "length ?es = 5 * length (k # ks)" using r(1) by simp
  have "map lane_index ?es = map lane_index [e0, e1, e2, e3, e4] @ map lane_index es"
    by simp
  also have "\<dots> = round_schedule hc (st_x st) (fw_x2 fw) 0
      @ concat (map (\<lambda>r. round_schedule hc (st_x st) (fw_x2 fw) (Suc r)) [0..<length ks])"
    unfolding sch r(2) x1 y1 round_schedule_Suc by (rule refl)
  also have "\<dots> = concat (map (round_schedule hc (st_x st) (fw_x2 fw)) [0..<Suc (length ks)])"
    unfolding map_upt_Suc by simp
  finally have sched: "map lane_index ?es
      = concat (map (round_schedule hc (st_x st) (fw_x2 fw)) [0..<length (k # ks)])"
    by simp
  have tr': "fw_trace eng fw ?es" using tr r(3) by blast
  have lo: "length (round_outs ?es) = length (k # ks)" using r(4) by simp
  have fo: "observe_fold observe (zip (k # ks) (round_outs ?es)) acc = Some acc'"
    using r(5) ob by simp
  show ?case
    using run len sched tr' lo fo
    by (intro exI[of _ st'] exI[of _ fw'] exI[of _ acc'] exI[of _ ?es] conjI)
qed

section \<open>Traces of the main core\<close>

text \<open>
  Whenever a loop of the harness returns, the calls it has appended to the log extend
  the traces of the main core from the state before the loop to the state after it.
\<close>

lemma trace_ext_refl: "trace_ext eng [] st [] st"
  by (simp add: trace_ext_def)

lemma trace_ext_trans:
  "trace_ext eng ws1 st es1 st1 \<Longrightarrow> trace_ext eng ws2 st1 es2 st2
   \<Longrightarrow> trace_ext eng (ws1 @ ws2) st (es1 @ es2) st2"
  by (simp add: trace_ext_def)

lemma trace_ext_main: "trace_ext eng ws st es st' \<Longrightarrow> main_trace eng ws st es"
proof -
  assume "trace_ext eng ws st es st'"
  then have "main_trace eng [] st' [] \<longrightarrow> main_trace eng (ws @ []) st (es @ [])"
    unfolding trace_ext_def by blast
  then show ?thesis by simp
qed

lemma st_core_next_x: "st_core (next_x st) = st_core st"
  by (cases st) (simp add: st_core_def next_x_def)

lemma main_calls_append: "main_calls (a @ b) = main_calls a @ main_calls b"
  by (simp add: main_calls_def)

lemma core_call_entry:
  assumes "core_call core lane seed lcg h i log = Some (s', l', h', out, log')"
  shows "\<exists>e. log' = log @ [e] \<and> call_lane e = lane \<and> call_index e = i \<and> i < length h
      \<and> call_seed_in e = seed \<and> call_lcg_in e = lcg \<and> call_hash_in e = h ! i
      \<and> step_ok core e \<and> s' = call_seed e \<and> l' = call_lcg e \<and> h' = h[i := call_hash e]
      \<and> out = call_out e"
  using assms
  by (auto simp add: core_call_def step_ok_def call_result_def split: if_splits bind_splits)

lemma main_call_mix:
  assumes "main_call (e_core eng) hc (seed, lcg, h, x) log = Some (st', out, log')"
    and "mix eng seed0 w = Some seed" and "mix eng lcg0 w = Some lcg"
  shows "\<exists>e. log' = log @ [e] \<and> call_lane e = 0 \<and> call_out e = out
      \<and> trace_ext eng [w] (seed0, lcg0, h) [e] (st_core st')"
proof -
  obtain i s1 l1 h1 where i: "hash_index x hc = Some i"
    and c: "core_call (e_core eng) 0 seed lcg h i log = Some (s1, l1, h1, out, log')"
    and st': "st' = (s1, l1, h1, x)"
    using assms(1) by (auto simp add: main_call_def split: bind_splits)
  obtain e where e: "log' = log @ [e]" "call_lane e = 0" "call_index e = i" "i < length h"
      "call_seed_in e = seed" "call_lcg_in e = lcg" "call_hash_in e = h ! i"
      "step_ok (e_core eng) e" "s1 = call_seed e" "l1 = call_lcg e" "h1 = h[i := call_hash e]"
      "out = call_out e"
    using core_call_entry[OF c] by blast
  have "trace_ext eng [w] (seed0, lcg0, h) [e] (st_core st')"
    unfolding trace_ext_def using e assms(2,3) by (simp add: st' st_core_def)
  then show ?thesis using e(1,2,12) by blast
qed

lemma mix_None: "mix eng w None = Some w"
  by (simp add: mix_def)

lemma main_call_ext:
  assumes "main_call (e_core eng) hc st log = Some (st', out, log')"
  shows "\<exists>e. log' = log @ [e] \<and> call_lane e = 0 \<and> call_out e = out
      \<and> trace_ext eng [None] (st_core st) [e] (st_core st')"
proof -
  obtain seed lcg h x where st: "st = (seed, lcg, h, x)" by (cases st)
  show ?thesis
    using main_call_mix[OF assms[unfolded st] mix_None mix_None]
    by (simp add: st st_core_def)
qed

lemma init_loop_ext:
  "init_loop (e_core eng) hc n st log = Some (st', log') \<Longrightarrow>
   \<exists>es. log' = log @ es \<and> main_calls es = es
     \<and> trace_ext eng (replicate n None) (st_core st) es (st_core st')"
proof (induction n arbitrary: st log)
  case 0
  then show ?case by (simp add: trace_ext_refl main_calls_def)
next
  case (Suc n)
  obtain st1 out1 log1 where m: "main_call (e_core eng) hc st log = Some (st1, out1, log1)"
    and l: "init_loop (e_core eng) hc n st1 log1 = Some (st', log')"
    using Suc.prems by (auto split: bind_splits)
  obtain e where e: "log1 = log @ [e]" "call_lane e = 0"
    "trace_ext eng [None] (st_core st) [e] (st_core st1)"
    using main_call_ext[OF m] by blast
  obtain es where es: "log' = log1 @ es" "main_calls es = es"
    "trace_ext eng (replicate n None) (st_core st1) es (st_core st')"
    using Suc.IH[OF l] by blast
  have t: "trace_ext eng (replicate (Suc n) None) (st_core st) (e # es) (st_core st')"
    using trace_ext_trans[OF e(3) es(3)] by simp
  have "main_calls (e # es) = e # es" using es(2) e(2) by (simp add: main_calls_def)
  moreover have "log' = log @ (e # es)" using e(1) es(1) by simp
  ultimately show ?case using t by blast
qed

lemma fill_loop_ext:
  "fill_loop (e_core eng) hc n st log = Some (st', log') \<Longrightarrow>
   \<exists>es. log' = log @ es \<and> main_calls es = es
     \<and> trace_ext eng (replicate n None) (st_core st) es (st_core st')"
proof (induction n arbitrary: st log)
  case 0
  then show ?case by (simp add: trace_ext_refl main_calls_def)
next
  case (Suc n)
  obtain st1 out1 log1 where m: "main_call (e_core eng) hc st log = Some (st1, out1, log1)"
    and l: "fill_loop (e_core eng) hc n (next_x st1) log1 = Some (st', log')"
    using Suc.prems by (auto split: bind_splits)
  obtain e where e: "log1 = log @ [e]" "call_lane e = 0"
    "trace_ext eng [None] (st_core st) [e] (st_core st1)"
    using main_call_ext[OF m] by blast
  obtain es where es: "log' = log1 @ es" "main_calls es = es"
    "trace_ext eng (replicate n None) (st_core (next_x st1)) es (st_core st')"
    using Suc.IH[OF l] by blast
  have t: "trace_ext eng (replicate (Suc n) None) (st_core st) (e # es) (st_core st')"
    using trace_ext_trans[OF e(3) es(3)[unfolded st_core_next_x]] by simp
  have "main_calls (e # es) = e # es" using es(2) e(2) by (simp add: main_calls_def)
  moreover have "log' = log @ (e # es)" using e(1) es(1) by simp
  ultimately show ?case using t by blast
qed

lemma obs_loop_ext:
  "obs_loop eng hc observe ks st acc log = Some (st', acc', log') \<Longrightarrow>
   \<exists>es. log' = log @ es \<and> main_calls es = es
     \<and> trace_ext eng (replicate (2 * length ks) None) (st_core st) es (st_core st')"
proof (induction ks arbitrary: st acc log)
  case Nil
  then show ?case by (simp add: trace_ext_refl main_calls_def)
next
  case (Cons k ks)
  obtain st1 out1 log1 st2 out2 log2 acc1 where
    m1: "main_call (e_core eng) hc st log = Some (st1, out1, log1)"
    and m2: "main_call (e_core eng) hc (next_x st1) log1 = Some (st2, out2, log2)"
    and l: "obs_loop eng hc observe ks (next_x st2) acc1 log2 = Some (st', acc', log')"
    using Cons.prems by (auto split: bind_splits)
  obtain e1 where e1: "log1 = log @ [e1]" "call_lane e1 = 0"
    "trace_ext eng [None] (st_core st) [e1] (st_core st1)"
    using main_call_ext[OF m1] by blast
  obtain e2 where e2: "log2 = log1 @ [e2]" "call_lane e2 = 0"
    "trace_ext eng [None] (st_core (next_x st1)) [e2] (st_core st2)"
    using main_call_ext[OF m2] by blast
  obtain es where es: "log' = log2 @ es" "main_calls es = es"
    "trace_ext eng (replicate (2 * length ks) None) (st_core (next_x st2)) es (st_core st')"
    using Cons.IH[OF l] by blast
  have t: "trace_ext eng (replicate (2 * length (k # ks)) None) (st_core st) (e1 # e2 # es)
      (st_core st')"
    using trace_ext_trans[OF e1(3) trace_ext_trans[OF e2(3)[unfolded st_core_next_x]
          es(3)[unfolded st_core_next_x]]]
    by simp
  have "main_calls (e1 # e2 # es) = e1 # e2 # es"
    using es(2) e1(2) e2(2) by (simp add: main_calls_def)
  moreover have "log' = log @ (e1 # e2 # es)" using e1(1) e2(1) es(1) by simp
  ultimately show ?case using t by blast
qed

lemma inject_mix:
  assumes "inject eng ivlen iv i (seed, lcg, h, x) ivpos = Some (st1, ivpos1)"
    and pos: "ivpos = min (i div 2) ivlen"
  shows "\<exists>seed1 lcg1. st1 = (seed1, lcg1, h, x)
      \<and> mix eng seed (nonce_word ivlen iv i) = Some seed1
      \<and> mix eng lcg (nonce_word ivlen iv i) = Some lcg1
      \<and> ivpos1 = min (Suc i div 2) ivlen"
proof -
  have odd1: "(i AND 1 = 1) = odd i" by (simp add: and_one_eq mod_2_eq_odd)
  have odd2: "(i mod 2 = Suc 0) = odd i" by presburger
  show ?thesis
  proof (cases "odd i \<and> i div 2 < ivlen")
    case True
    then have ip: "ivpos = i div 2" and lt: "ivpos < ivlen" using pos by simp_all
    have nx: "min (Suc i div 2) ivlen = ivpos + 1"
      using True ip by (auto elim!: oddE)
    have nw: "nonce_word ivlen iv i = Some (iv ! ivpos)"
      using True ip by (simp add: nonce_word_def)
    have c: "(odd i \<and> ivpos < ivlen) = True" using True lt by simp
    show ?thesis
      using assms(1) nx
      by (auto simp add: inject_def odd1 odd2 c nw mix_def split: if_splits bind_splits)
  next
    case False
    then have nx: "min (Suc i div 2) ivlen = ivpos"
      using pos by (cases "odd i") (auto elim!: oddE)
    have "\<not> (odd i \<and> ivpos < ivlen)" using False pos by auto
    then have c: "(odd i \<and> ivpos < ivlen) = False" by simp
    have nw: "nonce_word ivlen iv i = None"
      using False by (simp add: nonce_word_def)
    have "inject eng ivlen iv i (seed, lcg, h, x) ivpos = Some ((seed, lcg, h, x), ivpos)"
      by (simp add: inject_def odd1 odd2 c)
    then show ?thesis
      using assms(1) nx by (simp add: nw mix_def)
  qed
qed

lemma iv_loop_ext:
  "iv_loop eng hc ivlen iv [i..<i + n] st ivpos log = Some (st', ivpos', log') \<Longrightarrow>
   ivpos = min (i div 2) ivlen \<Longrightarrow>
   \<exists>es. log' = log @ es \<and> main_calls es = es
     \<and> trace_ext eng (map (nonce_word ivlen iv) [i..<i + n]) (st_core st) es (st_core st')"
proof (induction n arbitrary: i st ivpos log)
  case 0
  then show ?case by (simp add: trace_ext_refl main_calls_def)
next
  case (Suc n)
  have u: "[i..<i + Suc n] = i # [Suc i..<Suc i + n]"
    by (simp add: upt_conv_Cons del: upt_Suc)
  obtain seed lcg h x where st: "st = (seed, lcg, h, x)" by (cases st)
  obtain st1 ivpos1 st2 out1 log1 where
    inj: "inject eng ivlen iv i (seed, lcg, h, x) ivpos = Some (st1, ivpos1)"
    and m: "main_call (e_core eng) hc st1 log = Some (st2, out1, log1)"
    and l: "iv_loop eng hc ivlen iv [Suc i..<Suc i + n] (next_x st2) ivpos1 log1
              = Some (st', ivpos', log')"
    using Suc.prems(1) unfolding u st by (auto split: bind_splits)
  obtain seed1 lcg1 where s1: "st1 = (seed1, lcg1, h, x)"
    and ms: "mix eng seed (nonce_word ivlen iv i) = Some seed1"
    and ml: "mix eng lcg (nonce_word ivlen iv i) = Some lcg1"
    and p1: "ivpos1 = min (Suc i div 2) ivlen"
    using inject_mix[OF inj Suc.prems(2)] by blast
  obtain e where e: "log1 = log @ [e]" "call_lane e = 0"
    "trace_ext eng [nonce_word ivlen iv i] (seed, lcg, h) [e] (st_core st2)"
    using main_call_mix[OF m[unfolded s1] ms ml] by blast
  obtain es where es: "log' = log1 @ es" "main_calls es = es"
    "trace_ext eng (map (nonce_word ivlen iv) [Suc i..<Suc i + n]) (st_core (next_x st2)) es
       (st_core st')"
    using Suc.IH[OF l p1] by blast
  have t: "trace_ext eng (map (nonce_word ivlen iv) [i..<i + Suc n]) (st_core st) (e # es)
      (st_core st')"
    unfolding u using trace_ext_trans[OF e(3) es(3)[unfolded st_core_next_x]]
    by (simp add: st st_core_def)
  have "main_calls (e # es) = e # es" using es(2) e(2) by (simp add: main_calls_def)
  moreover have "log' = log @ (e # es)" using e(1) es(1) by simp
  ultimately show ?case using t by blast
qed

lemma fw_round_ext:
  assumes "fw_round eng hc st fw log = Some (st', fw', outs, log')"
  shows "\<exists>es. log' = log @ es
      \<and> trace_ext eng [None] (st_core st) (main_calls es) (st_core st')"
proof -
  obtain seed1 lcg1 seed2 lcg2 seed3 lcg3 seed4 lcg4 h2 x2
    where fw: "fw = ((seed1, lcg1), (seed2, lcg2), (seed3, lcg3), (seed4, lcg4), h2, x2)"
    by (cases fw) auto
  obtain st1 out1 log0 seed4x s1 l1 h2a o1 log1 s2 l2 h2b o2 log2 s3 l3 h2c o3 log3
      s4 l4 h2d o4 where
    m: "main_call (e_core eng) hc st log = Some (st1, out1, log0)"
    and c1: "core_call (e_core eng) 1 seed1 lcg1 h2 ((x2 + 0) mod 5) log0
               = Some (s1, l1, h2a, o1, log1)"
    and c2: "core_call (e_core eng) 2 seed2 lcg2 h2a ((x2 + 1) mod 5) log1
               = Some (s2, l2, h2b, o2, log2)"
    and c3: "core_call (e_core eng) 3 seed3 lcg3 h2b ((x2 + 2) mod 5) log2
               = Some (s3, l3, h2c, o3, log3)"
    and c4: "core_call (e_core eng) 4 seed4x lcg4 h2c ((x2 + 3) mod 5) log3
               = Some (s4, l4, h2d, o4, log')"
    and st': "st' = next_x st1"
    using assms unfolding fw_round_def fw by (auto split: bind_splits)
  obtain e0 where e0: "log0 = log @ [e0]" "call_lane e0 = 0"
    "trace_ext eng [None] (st_core st) [e0] (st_core st1)"
    using main_call_ext[OF m] by blast
  obtain e1 where e1: "log1 = log0 @ [e1]" "call_lane e1 = 1"
    using core_call_entry[OF c1] by blast
  obtain e2 where e2: "log2 = log1 @ [e2]" "call_lane e2 = 2"
    using core_call_entry[OF c2] by blast
  obtain e3 where e3: "log3 = log2 @ [e3]" "call_lane e3 = 3"
    using core_call_entry[OF c3] by blast
  obtain e4 where e4: "log' = log3 @ [e4]" "call_lane e4 = 4"
    using core_call_entry[OF c4] by blast
  have l: "log' = log @ [e0, e1, e2, e3, e4]" using e0(1) e1(1) e2(1) e3(1) e4(1) by simp
  have mc: "main_calls [e0, e1, e2, e3, e4] = [e0]"
    using e0(2) e1(2) e2(2) e3(2) e4(2) by (simp add: main_calls_def)
  show ?thesis
    using l e0(3) unfolding st' st_core_next_x
    by (intro exI[of _ "[e0, e1, e2, e3, e4]"]) (simp add: mc)
qed

lemma fw_loop_ext:
  "fw_loop eng hc observe ks st fw acc log = Some (st', fw', acc', log') \<Longrightarrow>
   \<exists>es. log' = log @ es
     \<and> trace_ext eng (replicate (length ks) None) (st_core st) (main_calls es) (st_core st')"
proof (induction ks arbitrary: st fw acc log)
  case Nil
  then show ?case by (simp add: trace_ext_refl main_calls_def)
next
  case (Cons k ks)
  obtain st1 fw1 outs log1 acc1 where
    r: "fw_round eng hc st fw log = Some (st1, fw1, outs, log1)"
    and l: "fw_loop eng hc observe ks st1 fw1 acc1 log1 = Some (st', fw', acc', log')"
    using Cons.prems by (auto split: bind_splits)
  obtain es1 where es1: "log1 = log @ es1"
    "trace_ext eng [None] (st_core st) (main_calls es1) (st_core st1)"
    using fw_round_ext[OF r] by blast
  obtain es where es: "log' = log1 @ es"
    "trace_ext eng (replicate (length ks) None) (st_core st1) (main_calls es) (st_core st')"
    using Cons.IH[OF l] by blast
  have t: "trace_ext eng (replicate (length (k # ks)) None) (st_core st)
      (main_calls (es1 @ es)) (st_core st')"
    using trace_ext_trans[OF es1(2) es(2)] by (simp add: main_calls_append)
  moreover have "log' = log @ (es1 @ es)" using es1(1) es(1) by simp
  ultimately show ?case by blast
qed

lemma gradilac_trace_generic:
  assumes "init_loop (e_core eng) hc 5 st [] = Some (st1, log1)"
    and "fill_loop (e_core eng) hc (hc + 1) st1 log1 = Some (st2, log2)"
    and "obs_loop eng hc observe ks st2 ainit log2 = Some (st3, acc, log)"
  shows "main_trace eng (replicate (5 + (hc + 1) + 2 * length ks) None) (st_core st) log"
proof -
  obtain es1 where a: "log1 = [] @ es1"
    "trace_ext eng (replicate 5 None) (st_core st) es1 (st_core st1)"
    using init_loop_ext[OF assms(1)] by blast
  obtain es2 where b: "log2 = log1 @ es2"
    "trace_ext eng (replicate (hc + 1) None) (st_core st1) es2 (st_core st2)"
    using fill_loop_ext[OF assms(2)] by blast
  obtain es3 where c: "log = log2 @ es3"
    "trace_ext eng (replicate (2 * length ks) None) (st_core st2) es3 (st_core st3)"
    using obs_loop_ext[OF assms(3)] by blast
  have "trace_ext eng (replicate 5 None @ replicate (hc + 1) None @ replicate (2 * length ks) None)
      (st_core st) (es1 @ es2 @ es3) (st_core st3)"
    by (rule trace_ext_trans[OF a(2) trace_ext_trans[OF b(2) c(2)]])
  then have "main_trace eng
      (replicate 5 None @ replicate (hc + 1) None @ replicate (2 * length ks) None)
      (st_core st) (es1 @ es2 @ es3)"
    by (rule trace_ext_main)
  moreover have "log = es1 @ es2 @ es3" using a(1) b(1) c(1) by simp
  moreover have "replicate 5 None @ replicate (hc + 1) None @ replicate (2 * length ks) None
      = replicate (5 + (hc + 1) + 2 * length ks) (None :: int option)"
    by (simp only: replicate_add append_assoc)
  ultimately show ?thesis by simp
qed

lemma t642_trace_generic:
  assumes "init_loop (e_core eng) hc 5 st [] = Some (st1, log1)"
    and "iv_loop eng hc ivlen iv [0..<hc] st1 0 log1 = Some (st2, ivpos, log2)"
    and "fill_loop (e_core eng) hc (hc + 1) st2 log2 = Some (st3, log3)"
    and "fw_loop eng hc observe ks st3 fw ainit log3 = Some (st4, fw', acc, log)"
  shows "main_trace eng
      (replicate 5 None @ map (nonce_word ivlen iv) [0..<hc]
         @ replicate (hc + 1) None @ replicate (length ks) None)
      (st_core st) (main_calls log)"
proof -
  obtain es1 where a: "log1 = [] @ es1" "main_calls es1 = es1"
    "trace_ext eng (replicate 5 None) (st_core st) es1 (st_core st1)"
    using init_loop_ext[OF assms(1)] by blast
  have z: "(0::nat) = min (0 div 2) ivlen" by simp
  have "iv_loop eng hc ivlen iv [0..<0 + hc] st1 0 log1 = Some (st2, ivpos, log2)"
    using assms(2) by simp
  from iv_loop_ext[OF this z]
  obtain es2 where b: "log2 = log1 @ es2" "main_calls es2 = es2"
    "trace_ext eng (map (nonce_word ivlen iv) [0..<hc]) (st_core st1) es2 (st_core st2)"
    by auto
  obtain es3 where c: "log3 = log2 @ es3" "main_calls es3 = es3"
    "trace_ext eng (replicate (hc + 1) None) (st_core st2) es3 (st_core st3)"
    using fill_loop_ext[OF assms(3)] by blast
  obtain es4 where d: "log = log3 @ es4"
    "trace_ext eng (replicate (length ks) None) (st_core st3) (main_calls es4) (st_core st4)"
    using fw_loop_ext[OF assms(4)] by blast
  have "trace_ext eng (replicate 5 None @ map (nonce_word ivlen iv) [0..<hc]
         @ replicate (hc + 1) None @ replicate (length ks) None)
      (st_core st) (es1 @ es2 @ es3 @ main_calls es4) (st_core st4)"
    by (rule trace_ext_trans[OF a(3) trace_ext_trans[OF b(3) trace_ext_trans[OF c(3) d(2)]]])
  then have "main_trace eng (replicate 5 None @ map (nonce_word ivlen iv) [0..<hc]
         @ replicate (hc + 1) None @ replicate (length ks) None)
      (st_core st) (es1 @ es2 @ es3 @ main_calls es4)"
    by (rule trace_ext_main)
  moreover have "main_calls log = es1 @ es2 @ es3 @ main_calls es4"
    using a(1,2) b(1,2) c(1,2) d(1) by (simp add: main_calls_append)
  ultimately show ?thesis by simp
qed

section \<open>Runs of Variant A\<close>

lemma those_map_Some: "those (map Some xs) = Some xs"
  by (induction xs) simp_all

lemma calc_h_init_Some:
  assumes "hci \<le> length hcv"
  shows "calc_h_init bits hci hcv hc
       = Some (map (\<lambda>i. if i < hci then hcv ! i AND bmask bits else 0) [0..<hc])"
proof -
  have "map (\<lambda>i. if i < hci then (if length hcv \<le> i then None else Some (hcv ! i AND bmask bits))
                  else Some 0) [0..<hc]
      = map Some (map (\<lambda>i. if i < hci then hcv ! i AND bmask bits else 0) [0..<hc])"
    using assms by auto
  then show ?thesis unfolding calc_h_init_def by (simp only: those_map_Some)
qed

lemma map_upt_add: "map f [0..<a + b] = map f [0..<a] @ map (\<lambda>j. f (a + j)) [0..<b]"
  by (induction b) simp_all

lemma observe_fold_calc:
  "length ks = length outs \<Longrightarrow> observe_fold calc_observe (zip ks outs) acc = Some (acc @ outs)"
  by (induction ks outs arbitrary: acc rule: list_induct2) (simp_all add: calc_observe_def)

lemma calc_xor_outs:
  "list_all2 (\<lambda>p out. e_xor (calc_engine bits) (fst p) (snd p) = Some out) ps outs
   \<Longrightarrow> outs = map (\<lambda>p. fst p XOR snd p) ps"
  by (induction ps outs rule: list_all2_induct) (auto simp add: calc_engine_def)

lemma xor_bv_xor_bits: "xor_bv a b = Some r \<Longrightarrow> r = xor_bits a b"
  by (auto simp add: xor_bv_def xor_bits_def split: if_splits intro!: nth_equalityI)

lemma sat_xor_outs:
  "list_all2 (\<lambda>p out. e_xor (sat_engine bits) (fst p) (snd p) = Some out) ps outs
   \<Longrightarrow> outs = map (\<lambda>p. xor_bits (fst p) (snd p)) ps"
  by (induction ps outs rule: list_all2_induct) (auto simp add: sat_engine_def dest: xor_bv_xor_bits)

lemma make_equal_bits_Some:
  assumes "k < length obs"
  shows "make_equal_bits out obs k = Some (bit_constraints out (obs ! k))"
proof -
  have "map (\<lambda>(i, b). (b, drop_bit i (obs ! k) AND 1 \<noteq> 0)) (enumerate 0 out)
      = map (\<lambda>i. (out ! i, bit (obs ! k) i)) [0..<length out]"
    by (rule nth_equalityI)
       (simp_all add: nth_enumerate_eq bit_iff_odd_drop_bit and_one_eq mod_2_eq_odd)
  then show ?thesis using assms by (simp add: make_equal_bits_def bit_constraints_def)
qed

lemma observe_fold_sat:
  "length outs = n \<Longrightarrow> k0 + n \<le> length obs \<Longrightarrow>
   observe_fold (sat_observe obs) (zip [k0..<k0 + n] outs) acc
     = Some (acc @ concat (map (\<lambda>j. bit_constraints (outs ! j) (obs ! (k0 + j))) [0..<n]))"
proof (induction n arbitrary: k0 outs acc)
  case 0
  then show ?case by simp
next
  case (Suc n)
  obtain out outs' where o: "outs = out # outs'" and l: "length outs' = n"
    using Suc.prems(1) by (cases outs) simp_all
  have k: "k0 < length obs" and k': "Suc k0 + n \<le> length obs" using Suc.prems(2) by simp_all
  have u: "[k0..<k0 + Suc n] = k0 # [Suc k0..<Suc k0 + n]"
    by (simp add: upt_conv_Cons del: upt_Suc)
  show ?case
    unfolding u o map_upt_Suc
    using Suc.IH[OF l k', of "acc @ bit_constraints out (obs ! k0)"]
    by (simp add: sat_observe_def make_equal_bits_Some[OF k])
qed

lemma good_calc_init: "length h = hc \<Longrightarrow> good (\<lambda>_. True) hc (s, l, h, x)"
  by (simp add: good_def list_all_iff)

lemma length_new_vars: "length (new_vars first n) = n"
  by (simp add: new_vars_def)

lemma good_sat_init:
  assumes "length s = bits" and "length l = bits"
  shows "good (\<lambda>v. length v = bits) hc (s, l, sat_h_init bits hci hc first, x)"
  using assms
  by (auto simp add: good_def sat_h_init_def list_all_iff length_new_vars length_inibits)

lemma schedule_A_parts:
  "replicate 5 (0, 0 mod hc) @ map (\<lambda>j. (0, (0 + j) mod hc)) [0..<hc + 1]
      @ map (\<lambda>j. (0, (0 + (hc + 1) + j) mod hc)) [0..<2 * n]
   = schedule_A hc n"
  unfolding schedule_A_def map_upt_add[of _ "hc + 1" "2 * n"] by simp

lemma gradilac_run_generic:
  assumes eng: "engine_ok P eng" and hc: "0 < hc" and g: "good P hc st" and x: "st_x st = 0"
    and ob: "\<And>k out a. k \<in> set ks \<Longrightarrow> P out \<Longrightarrow> \<exists>a'. observe k out a = Some a'"
  shows "\<exists>st1 log1 st2 log2 st3 acc log outs.
      init_loop (e_core eng) hc 5 st [] = Some (st1, log1)
    \<and> fill_loop (e_core eng) hc (hc + 1) st1 log1 = Some (st2, log2)
    \<and> obs_loop eng hc observe ks st2 ainit log2 = Some (st3, acc, log)
    \<and> map lane_index log = schedule_A hc (length ks)
    \<and> length log = hc + 6 + 2 * length ks
    \<and> length outs = length ks
    \<and> list_all2 (\<lambda>p out. e_xor eng (fst p) (snd p) = Some out) (pair_outs (drop (hc + 6) log)) outs
    \<and> observe_fold observe (zip ks outs) ainit = Some acc"
proof -
  note core = engine_ok_core[OF eng]
  obtain st1 es1 where l1: "init_loop (e_core eng) hc 5 st [] = Some (st1, [] @ es1)"
    and r1: "good P hc st1" "st_x st1 = st_x st" "length es1 = 5"
      "map lane_index es1 = replicate 5 (0, st_x st mod hc)"
    using init_loop_ok[OF core hc g, where n = 5 and log = "[]"] by blast
  obtain st2 es2 where l2: "fill_loop (e_core eng) hc (hc + 1) st1 es1 = Some (st2, es1 @ es2)"
    and r2: "good P hc st2" "st_x st2 = st_x st1 + (hc + 1)" "length es2 = hc + 1"
      "map lane_index es2 = map (\<lambda>j. (0, (st_x st1 + j) mod hc)) [0..<hc + 1]"
    using fill_loop_ok[OF core hc r1(1), where n = "hc + 1" and log = es1] by blast
  obtain st3 acc es3 outs where
    l3: "obs_loop eng hc observe ks st2 ainit (es1 @ es2) = Some (st3, acc, (es1 @ es2) @ es3)"
    and r3: "length es3 = 2 * length ks"
      "map lane_index es3 = map (\<lambda>j. (0, (st_x st2 + j) mod hc)) [0..<2 * length ks]"
      "length outs = length ks"
      "list_all2 (\<lambda>p out. e_xor eng (fst p) (snd p) = Some out) (pair_outs es3) outs"
      "observe_fold observe (zip ks outs) ainit = Some acc"
    using obs_loop_ok[where ks = ks and observe = observe and acc = ainit and log = "es1 @ es2",
        OF eng hc r2(1) ob] by blast
  let ?log = "(es1 @ es2) @ es3"
  have sch: "map lane_index ?log = schedule_A hc (length ks)"
    using r1(2,4) r2(2,4) r3(2) x schedule_A_parts[of hc "length ks"] by simp
  have len: "length ?log = hc + 6 + 2 * length ks" using r1(3) r2(3) r3(1) by simp
  have dr: "drop (hc + 6) ?log = es3" using r1(3) r2(3) by simp
  have la: "list_all2 (\<lambda>p out. e_xor eng (fst p) (snd p) = Some out)
      (pair_outs (drop (hc + 6) ?log)) outs"
    unfolding dr by (rule r3(4))
  have l1': "init_loop (e_core eng) hc 5 st [] = Some (st1, es1)" using l1 by simp
  show ?thesis
    by (intro exI[of _ st1] exI[of _ es1] exI[of _ st2] exI[of _ "es1 @ es2"] exI[of _ st3]
        exI[of _ acc] exI[of _ ?log] exI[of _ outs] conjI)
       (rule l1' l2 l3 sch len r3(3) la r3(5))+
qed

lemma length_pair_outs: "length es = 2 * n \<Longrightarrow> length (pair_outs es) = n"
proof (induction n arbitrary: es)
  case 0
  then show ?case by simp
next
  case (Suc n)
  then obtain e1 e2 es' where "es = e1 # e2 # es'" and "length es' = 2 * n"
    by (cases es; simp) (metis Suc_length_conv)
  then show ?case using Suc.IH by simp
qed

lemma gradilac_calc_run:
  assumes "0 < hc" and "hci \<le> length hcv"
  shows "\<exists>obs log. gradilac_calc bits hci seed_i lcg_i hcv hc num_obs = Some (obs, log)
    \<and> map lane_index log = schedule_A hc num_obs
    \<and> length log = hc + 6 + 2 * num_obs
    \<and> length obs = num_obs
    \<and> obs = map (\<lambda>p. fst p XOR snd p) (pair_outs (drop (hc + 6) log))"
proof -
  let ?h = "map (\<lambda>i. if i < hci then hcv ! i AND bmask bits else 0) [0..<hc]"
  let ?st = "(seed_i AND bmask bits, lcg_i AND bmask bits, ?h, 0::nat)"
  have g: "good (\<lambda>_. True) hc ?st" by (rule good_calc_init) simp
  have x: "st_x ?st = 0" by (simp add: st_x_def)
  have ob: "\<And>k out a. k \<in> set [0..<num_obs] \<Longrightarrow> True \<Longrightarrow> \<exists>a'. calc_observe k out a = Some a'"
    by (simp add: calc_observe_def)
  obtain st1 log1 st2 log2 st3 acc log outs where
    r: "init_loop (e_core (calc_engine bits)) hc 5 ?st [] = Some (st1, log1)"
      "fill_loop (e_core (calc_engine bits)) hc (hc + 1) st1 log1 = Some (st2, log2)"
      "obs_loop (calc_engine bits) hc calc_observe [0..<num_obs] st2 [] log2 = Some (st3, acc, log)"
      "map lane_index log = schedule_A hc (length [0..<num_obs])"
      "length log = hc + 6 + 2 * length [0..<num_obs]"
      "length outs = length [0..<num_obs]"
      "list_all2 (\<lambda>p out. e_xor (calc_engine bits) (fst p) (snd p) = Some out)
          (pair_outs (drop (hc + 6) log)) outs"
      "observe_fold calc_observe (zip [0..<num_obs] outs) [] = Some acc"
    using gradilac_run_generic[where eng = "calc_engine bits" and P = "\<lambda>_. True" and st = ?st
        and ks = "[0..<num_obs]" and observe = calc_observe and ainit = "[]",
        OF engine_ok_calc assms(1) g x ob]
    by blast
  have acc: "acc = outs" using r(8) observe_fold_calc[of "[0..<num_obs]" outs "[]"] r(6) by simp
  have outs: "outs = map (\<lambda>p. fst p XOR snd p) (pair_outs (drop (hc + 6) log))"
    using r(7) by (rule calc_xor_outs)
  have core: "e_core (calc_engine bits) = calc_core bits" by (simp add: calc_engine_def)
  have run: "gradilac_calc bits hci seed_i lcg_i hcv hc num_obs = Some (acc, log)"
    unfolding gradilac_calc_def calc_h_init_Some[OF assms(2)]
    using r(1,2,3) by (simp add: core del: fill_loop.simps init_loop.simps)
  show ?thesis
    using run r(4,5,6) acc outs by (intro exI[of _ acc] exI[of _ log]) simp
qed

lemma gradilac_sat_run:
  assumes "0 < bits" and "0 < hc" and "num_obs \<le> length obs"
  shows "\<exists>cons log. gradilac_sat bits hci hc num_obs obs = Some (cons, log)
    \<and> map lane_index log = schedule_A hc num_obs
    \<and> length log = hc + 6 + 2 * num_obs
    \<and> cons = concat (map (\<lambda>k. bit_constraints
                 (xor_bits (fst (pair_outs (drop (hc + 6) log) ! k))
                           (snd (pair_outs (drop (hc + 6) log) ! k))) (obs ! k)) [0..<num_obs])"
proof -
  let ?P = "\<lambda>v :: bitf list. length v = bits"
  let ?st = "(new_vars 0 bits, new_vars bits bits, sat_h_init bits hci hc (2 * bits), 0::nat)"
  have g: "good ?P hc ?st" by (rule good_sat_init) (simp_all add: length_new_vars)
  have x: "st_x ?st = 0" by (simp add: st_x_def)
  have ob: "\<And>k out a. k \<in> set [0..<num_obs] \<Longrightarrow> length out = bits
      \<Longrightarrow> \<exists>a'. sat_observe obs k out a = Some a'"
    using assms(3) by (simp add: sat_observe_def make_equal_bits_Some)
  obtain st1 log1 st2 log2 st3 acc log outs where
    r: "init_loop (e_core (sat_engine bits)) hc 5 ?st [] = Some (st1, log1)"
      "fill_loop (e_core (sat_engine bits)) hc (hc + 1) st1 log1 = Some (st2, log2)"
      "obs_loop (sat_engine bits) hc (sat_observe obs) [0..<num_obs] st2 [] log2
         = Some (st3, acc, log)"
      "map lane_index log = schedule_A hc (length [0..<num_obs])"
      "length log = hc + 6 + 2 * length [0..<num_obs]"
      "length outs = length [0..<num_obs]"
      "list_all2 (\<lambda>p out. e_xor (sat_engine bits) (fst p) (snd p) = Some out)
          (pair_outs (drop (hc + 6) log)) outs"
      "observe_fold (sat_observe obs) (zip [0..<num_obs] outs) [] = Some acc"
    using gradilac_run_generic[where eng = "sat_engine bits" and P = ?P and st = ?st
        and ks = "[0..<num_obs]" and observe = "sat_observe obs" and ainit = "[]",
        OF engine_ok_sat[OF assms(1)] assms(2) g x ob]
    by blast
  let ?ps = "pair_outs (drop (hc + 6) log)"
  have outs: "outs = map (\<lambda>p. xor_bits (fst p) (snd p)) ?ps"
    using r(7) by (rule sat_xor_outs)
  have lps: "length ?ps = num_obs" using outs r(6) by (metis length_map length_upt diff_zero)
  have lo: "length outs = num_obs" using r(6) by simp
  have nth_outs: "\<And>k. k < num_obs \<Longrightarrow> outs ! k = xor_bits (fst (?ps ! k)) (snd (?ps ! k))"
    using lps outs by simp
  have "acc = concat (map (\<lambda>j. bit_constraints (outs ! j) (obs ! (0 + j))) [0..<num_obs])"
    using observe_fold_sat[OF lo, of 0 obs "[]"] r(8) assms(3) by simp
  also have "map (\<lambda>j. bit_constraints (outs ! j) (obs ! (0 + j))) [0..<num_obs]
      = map (\<lambda>k. bit_constraints
                 (xor_bits (fst (?ps ! k)) (snd (?ps ! k))) (obs ! k)) [0..<num_obs]"
    by (rule map_cong[OF refl]) (simp add: nth_outs)
  finally have acc: "acc = concat (map (\<lambda>k. bit_constraints
                 (xor_bits (fst (?ps ! k)) (snd (?ps ! k))) (obs ! k)) [0..<num_obs])" .
  have core: "e_core (sat_engine bits) = prvhash_core_sat bits" by (simp add: sat_engine_def)
  have run: "gradilac_sat bits hci hc num_obs obs = Some (acc, log)"
    unfolding gradilac_sat_def using r(1,2,3)
    by (simp add: core del: fill_loop.simps init_loop.simps)
  show ?thesis
    using run r(4,5) acc by (intro exI[of _ acc] exI[of _ log]) simp
qed

lemma gradilac_calc_trace:
  assumes "gradilac_calc bits hci seed_i lcg_i hcv hc num_obs = Some (obs, log)"
    and "hci \<le> length hcv"
  shows "main_trace (calc_engine bits) (replicate (5 + (hc + 1) + 2 * num_obs) None)
         (seed_i AND bmask bits, lcg_i AND bmask bits,
          map (\<lambda>i. if i < hci then hcv ! i AND bmask bits else 0) [0..<hc]) log"
proof -
  have core: "calc_core bits = e_core (calc_engine bits)" by (simp add: calc_engine_def)
  obtain st1 log1 st2 log2 st3 where
    r: "init_loop (e_core (calc_engine bits)) hc 5
          (seed_i AND bmask bits, lcg_i AND bmask bits,
           map (\<lambda>i. if i < hci then hcv ! i AND bmask bits else 0) [0..<hc], 0) []
          = Some (st1, log1)"
      "fill_loop (e_core (calc_engine bits)) hc (hc + 1) st1 log1 = Some (st2, log2)"
      "obs_loop (calc_engine bits) hc calc_observe [0..<num_obs] st2 [] log2
          = Some (st3, obs, log)"
    using assms(1) unfolding gradilac_calc_def calc_h_init_Some[OF assms(2)] core
    by (auto split: bind_splits simp del: init_loop.simps fill_loop.simps obs_loop.simps)
  show ?thesis
    using gradilac_trace_generic[OF r] by (simp add: st_core_def)
qed

lemma gradilac_sat_trace:
  assumes "gradilac_sat bits hci hc num_obs obs = Some (cons, log)"
  shows "main_trace (sat_engine bits) (replicate (5 + (hc + 1) + 2 * num_obs) None)
         (new_vars 0 bits, new_vars bits bits, sat_h_init bits hci hc (2 * bits)) log"
proof -
  have core: "prvhash_core_sat bits = e_core (sat_engine bits)" by (simp add: sat_engine_def)
  obtain st1 log1 st2 log2 st3 where
    r: "init_loop (e_core (sat_engine bits)) hc 5
          (new_vars 0 bits, new_vars bits bits, sat_h_init bits hci hc (2 * bits), 0) []
          = Some (st1, log1)"
      "fill_loop (e_core (sat_engine bits)) hc (hc + 1) st1 log1 = Some (st2, log2)"
      "obs_loop (sat_engine bits) hc (sat_observe obs) [0..<num_obs] st2 [] log2
          = Some (st3, cons, log)"
    using assms(1) unfolding gradilac_sat_def core
    by (auto split: bind_splits simp del: init_loop.simps fill_loop.simps obs_loop.simps)
  show ?thesis
    using gradilac_trace_generic[OF r] by (simp add: st_core_def)
qed

lemma t642_calc_trace:
  assumes "t642_calc bits hci ivlen seed_i hcv iv hc fc num_obs = Some (obs, log)"
    and "hci \<le> length hcv"
  shows "main_trace (calc_engine bits)
         (replicate 5 None @ map (nonce_word ivlen iv) [0..<hc]
            @ replicate (hc + 1) None @ replicate (fc + num_obs) None)
         (seed_i AND bmask bits, 0,
          map (\<lambda>i. if i < hci then hcv ! i AND bmask bits else 0) [0..<hc])
         (main_calls log)"
proof -
  have core: "calc_core bits = e_core (calc_engine bits)" by (simp add: calc_engine_def)
  obtain st1 log1 st2 ivpos log2 st3 log3 st4 fw where
    r: "init_loop (e_core (calc_engine bits)) hc 5
          (seed_i AND bmask bits, 0,
           map (\<lambda>i. if i < hci then hcv ! i AND bmask bits else 0) [0..<hc], 0) []
          = Some (st1, log1)"
      "iv_loop (calc_engine bits) hc ivlen iv [0..<hc] st1 0 log1 = Some (st2, ivpos, log2)"
      "fill_loop (e_core (calc_engine bits)) hc (hc + 1) st2 log2 = Some (st3, log3)"
      "fw_loop (calc_engine bits) hc (calc_observe4 fc) [0..<fc + num_obs] st3
          ((0, 0), (0, 0), (0, 0), (0, 0), [0, 0, 0, 0, 0], 0) [] log3
          = Some (st4, fw, obs, log)"
    using assms(1) unfolding t642_calc_def calc_h_init_Some[OF assms(2)] core
    by (auto split: bind_splits
        simp del: init_loop.simps fill_loop.simps iv_loop.simps fw_loop.simps)
  show ?thesis
    using t642_trace_generic[OF r] by (simp add: st_core_def)
qed

lemma t642_sat_trace:
  assumes "t642_sat bits hci ivlen iv hc fc num_obs obs = Some (cons, log)"
  shows "main_trace (sat_engine bits)
         (replicate 5 None @ map (nonce_word ivlen iv) [0..<hc]
            @ replicate (hc + 1) None @ replicate (fc + num_obs) None)
         (new_vars 0 bits, inibits bits 0, sat_h_init bits hci hc bits)
         (main_calls log)"
proof -
  have core: "prvhash_core_sat bits = e_core (sat_engine bits)" by (simp add: sat_engine_def)
  obtain st1 log1 st2 ivpos log2 st3 log3 st4 fw where
    r: "init_loop (e_core (sat_engine bits)) hc 5
          (new_vars 0 bits, inibits bits 0, sat_h_init bits hci hc bits, 0) []
          = Some (st1, log1)"
      "iv_loop (sat_engine bits) hc ivlen iv [0..<hc] st1 0 log1 = Some (st2, ivpos, log2)"
      "fill_loop (e_core (sat_engine bits)) hc (hc + 1) st2 log2 = Some (st3, log3)"
      "fw_loop (sat_engine bits) hc (sat_observe4 fc obs) [0..<fc + num_obs] st3
          ((inibits bits 0, inibits bits 0), (inibits bits 0, inibits bits 0),
           (inibits bits 0, inibits bits 0), (inibits bits 0, inibits bits 0),
           [inibits bits 0, inibits bits 0, inibits bits 0, inibits bits 0, inibits bits 0], 0)
          [] log3
          = Some (st4, fw, cons, log)"
    using assms(1) unfolding t642_sat_def Let_def core
    by (auto split: bind_splits
        simp del: init_loop.simps fill_loop.simps iv_loop.simps fw_loop.simps)
  show ?thesis
    using t642_trace_generic[OF r] by (simp add: st_core_def)
qed

text \<open>
  Claim C5. In Variant A both runs complete and make exactly \<open>5 + (hc + 1) + 2 * num_obs\<close>
  calls of the core: five calls and \<open>hc + 1\<close> further calls whose outputs enter no
  observation, then two consecutive calls per observation round. The calls form a trace
  of the main core from the initial state, no nonce word being mixed in: each call is a
  step of the core on the \<^verbatim>\<open>seed\<close> and \<^verbatim>\<open>lcg\<close> that the previous call returned and on the
  current content of its element of the hash array, which the hash word it returns
  replaces. The observation of round \<open>k\<close> is the exclusive or of the outputs of the two
  calls of that round, and the constraints of the symbolic run are, round by round and
  bit by bit, the bit of the exclusive or of the two symbolic outputs paired with the
  same bit of the concrete observation of that round.
\<close>

theorem variant_A_schedule:
  assumes "0 < bits" and "0 < hc" and "hci \<le> length hcv"
  shows "\<exists>obs clog cons slog.
      gradilac_calc bits hci seed_i lcg_i hcv hc num_obs = Some (obs, clog)
    \<and> gradilac_sat bits hci hc num_obs obs = Some (cons, slog)
    \<and> length clog = 5 + (hc + 1) + 2 * num_obs
    \<and> length slog = 5 + (hc + 1) + 2 * num_obs
    \<and> map lane_index clog = schedule_A hc num_obs
    \<and> map lane_index slog = schedule_A hc num_obs
    \<and> main_trace (calc_engine bits) (replicate (5 + (hc + 1) + 2 * num_obs) None)
         (seed_i AND bmask bits, lcg_i AND bmask bits,
          map (\<lambda>i. if i < hci then hcv ! i AND bmask bits else 0) [0..<hc]) clog
    \<and> main_trace (sat_engine bits) (replicate (5 + (hc + 1) + 2 * num_obs) None)
         (new_vars 0 bits, new_vars bits bits, sat_h_init bits hci hc (2 * bits)) slog
    \<and> length obs = num_obs
    \<and> obs = map (\<lambda>p. fst p XOR snd p) (pair_outs (drop (5 + (hc + 1)) clog))
    \<and> cons = concat (map (\<lambda>k. bit_constraints
                 (xor_bits (fst (pair_outs (drop (5 + (hc + 1)) slog) ! k))
                           (snd (pair_outs (drop (5 + (hc + 1)) slog) ! k))) (obs ! k))
               [0..<num_obs])"
proof -
  have e: "5 + (hc + 1) = hc + 6" by simp
  obtain obs clog where c: "gradilac_calc bits hci seed_i lcg_i hcv hc num_obs = Some (obs, clog)"
    "length clog = hc + 6 + 2 * num_obs" "length obs = num_obs"
    "obs = map (\<lambda>p. fst p XOR snd p) (pair_outs (drop (hc + 6) clog))"
    "map lane_index clog = schedule_A hc num_obs"
    using gradilac_calc_run[OF assms(2,3), of bits seed_i lcg_i num_obs] by blast
  have n: "num_obs \<le> length obs" using c(3) by simp
  obtain cons slog where s: "gradilac_sat bits hci hc num_obs obs = Some (cons, slog)"
    "length slog = hc + 6 + 2 * num_obs"
    "cons = concat (map (\<lambda>k. bit_constraints
                 (xor_bits (fst (pair_outs (drop (hc + 6) slog) ! k))
                           (snd (pair_outs (drop (hc + 6) slog) ! k))) (obs ! k)) [0..<num_obs])"
    "map lane_index slog = schedule_A hc num_obs"
    using gradilac_sat_run[OF assms(1,2) n, of hci] by blast
  have lc: "length clog = 5 + (hc + 1) + 2 * num_obs" using c(2) by simp
  have ls: "length slog = 5 + (hc + 1) + 2 * num_obs" using s(2) by simp
  note tc = gradilac_calc_trace[OF c(1) assms(3)]
  note ts = gradilac_sat_trace[OF s(1)]
  show ?thesis
    unfolding e
    by (intro exI[of _ obs] exI[of _ clog] exI[of _ cons] exI[of _ slog] conjI)
       (rule c(1) s(1) lc[unfolded e] ls[unfolded e] c(5) s(4) tc[unfolded e] ts[unfolded e]
          c(3) c(4) s(3))+
qed

theorem variant_A_schedule_witness:
  "\<exists>obs clog cons slog.
      gradilac_calc 6 2 4 5 [13, 4] 2 1 = Some (obs, clog)
    \<and> gradilac_sat 6 2 2 1 obs = Some (cons, slog)
    \<and> length clog = 5 + (2 + 1) + 2 * 1
    \<and> length slog = 5 + (2 + 1) + 2 * 1
    \<and> map lane_index clog = schedule_A 2 1
    \<and> map lane_index slog = schedule_A 2 1
    \<and> main_trace (calc_engine 6) (replicate (5 + (2 + 1) + 2 * 1) None)
         (4 AND bmask 6, 5 AND bmask 6,
          map (\<lambda>i. if i < 2 then [13, 4] ! i AND bmask 6 else 0) [0..<2]) clog
    \<and> main_trace (sat_engine 6) (replicate (5 + (2 + 1) + 2 * 1) None)
         (new_vars 0 6, new_vars 6 6, sat_h_init 6 2 2 (2 * 6)) slog
    \<and> length obs = 1
    \<and> obs = map (\<lambda>p. fst p XOR snd p) (pair_outs (drop (5 + (2 + 1)) clog))
    \<and> cons = concat (map (\<lambda>k. bit_constraints
                 (xor_bits (fst (pair_outs (drop (5 + (2 + 1)) slog) ! k))
                           (snd (pair_outs (drop (5 + (2 + 1)) slog) ! k))) (obs ! k))
               [0..<1])"
proof -
  have a: "(0::nat) < 6" and b: "(0::nat) < 2" and c: "(2::nat) \<le> length [13::int, 4]"
    by simp_all
  show ?thesis by (rule variant_A_schedule[OF a b c])
qed

section \<open>Runs of Variant B\<close>

lemma init_loop_seed:
  assumes "core_ok P core" and "0 < hc"
  shows "good P hc st \<Longrightarrow> init_loop core hc (Suc n) st log = Some (st', log') \<Longrightarrow>
    st_seed st' = call_seed (last log') \<and> st_lcg st' = call_lcg (last log')"
proof (induction n arbitrary: st log)
  case 0
  obtain st1 out e where m: "main_call core hc st log = Some (st1, out, log @ [e])"
    and s: "st_seed st1 = call_seed e" "st_lcg st1 = call_lcg e"
    using main_call_ok[OF assms "0.prems"(1), of log] by blast
  show ?case using "0.prems"(2) m s by auto
next
  case (Suc n)
  obtain st1 out e where m: "main_call core hc st log = Some (st1, out, log @ [e])"
    and g1: "good P hc st1"
    using main_call_ok[OF assms Suc.prems(1), of log] by blast
  have "init_loop core hc (Suc n) st1 (log @ [e]) = Some (st', log')"
    using Suc.prems(2) m by simp
  then show ?case by (rule Suc.IH[OF g1])
qed

lemma schedule_B_parts:
  "replicate 5 (0, 0 mod hc) @ map (\<lambda>j. (0, (0 + j) mod hc)) [0..<hc]
      @ map (\<lambda>j. (0, (0 + hc + j) mod hc)) [0..<hc + 1]
      @ concat (map (round_schedule hc (0 + hc + (hc + 1)) 0) [0..<n])
   = schedule_B hc 0 n"
proof -
  have a: "\<And>f. map f [0..<2 * hc + 1] = map f [0..<hc] @ map (\<lambda>j. f (hc + j)) [0..<hc + 1]"
    using map_upt_add[of _ hc "hc + 1"] by (simp add: mult_2)
  have b: "0 + hc + (hc + 1) = 2 * hc + 1" by simp
  have c: "(\<lambda>j. (0::nat, (0 + j) mod hc)) = (\<lambda>n. (0, n mod hc))" by simp
  have d: "(\<lambda>j. (0::nat, (0 + hc + j) mod hc)) = (\<lambda>j. (0, (hc + j) mod hc))" by simp
  show ?thesis
    unfolding schedule_B_def b c d a[of "\<lambda>n. (0, n mod hc)"] by simp
qed

lemma schedule_B_fc: "schedule_B hc 0 (fc + num_obs) = schedule_B hc fc num_obs"
  by (simp add: schedule_B_def)

lemma t642_run_generic:
  assumes eng: "engine_ok P eng" and hc: "0 < hc" and g: "good P hc st" and x: "st_x st = 0"
    and f: "fw_good P fw" and y: "fw_x2 fw = 0" and iv: "ivlen \<le> length iv"
    and ob: "\<And>k outs a. k \<in> set ks \<Longrightarrow> \<exists>a'. observe k outs a = Some a'"
  shows "\<exists>st1 log1 st2 ivpos log2 st3 log3 st4 fw' acc log.
      init_loop (e_core eng) hc 5 st [] = Some (st1, log1)
    \<and> iv_loop eng hc ivlen iv [0..<hc] st1 0 log1 = Some (st2, ivpos, log2)
    \<and> fill_loop (e_core eng) hc (hc + 1) st2 log2 = Some (st3, log3)
    \<and> fw_loop eng hc observe ks st3 fw ainit log3 = Some (st4, fw', acc, log)
    \<and> map lane_index log = schedule_B hc 0 (length ks)
    \<and> length log = 2 * hc + 6 + 5 * length ks
    \<and> iv_trace eng ivlen iv 0 (call_seed (log ! 4)) (call_lcg (log ! 4)) (take hc (drop 5 log))
    \<and> fw_trace eng fw (drop (2 * hc + 6) log)
    \<and> length (round_outs (drop (2 * hc + 6) log)) = length ks
    \<and> observe_fold observe (zip ks (round_outs (drop (2 * hc + 6) log))) ainit = Some acc"
proof -
  note core = engine_ok_core[OF eng]
  obtain st1 es1 where l1: "init_loop (e_core eng) hc 5 st [] = Some (st1, [] @ es1)"
    and r1: "good P hc st1" "st_x st1 = st_x st" "length es1 = 5"
      "map lane_index es1 = replicate 5 (0, st_x st mod hc)"
    using init_loop_ok[OF core hc g, where n = 5 and log = "[]"] by blast
  have l1': "init_loop (e_core eng) hc 5 st [] = Some (st1, es1)" using l1 by simp
  have "init_loop (e_core eng) hc (Suc 4) st [] = Some (st1, es1)" using l1' by simp
  then have sd: "st_seed st1 = call_seed (last es1)" "st_lcg st1 = call_lcg (last es1)"
    using init_loop_seed[OF core hc g, of 4 "[]" st1 es1] by simp_all
  have z: "(0::nat) = min (0 div 2) ivlen" by simp
  obtain st2 es2 where l2: "iv_loop eng hc ivlen iv [0..<0 + hc] st1 0 es1
        = Some (st2, min ((0 + hc) div 2) ivlen, es1 @ es2)"
    and r2: "good P hc st2" "st_x st2 = st_x st1 + hc" "length es2 = hc"
      "map lane_index es2 = map (\<lambda>j. (0, (st_x st1 + j) mod hc)) [0..<hc]"
      "iv_trace eng ivlen iv 0 (st_seed st1) (st_lcg st1) es2"
    using iv_loop_ok[OF eng hc iv r1(1) z, where n = hc and log = es1] by blast
  have l2': "iv_loop eng hc ivlen iv [0..<hc] st1 0 es1
        = Some (st2, min (hc div 2) ivlen, es1 @ es2)" using l2 by simp
  obtain st3 es3 where l3: "fill_loop (e_core eng) hc (hc + 1) st2 (es1 @ es2)
        = Some (st3, (es1 @ es2) @ es3)"
    and r3: "good P hc st3" "st_x st3 = st_x st2 + (hc + 1)" "length es3 = hc + 1"
      "map lane_index es3 = map (\<lambda>j. (0, (st_x st2 + j) mod hc)) [0..<hc + 1]"
    using fill_loop_ok[OF core hc r2(1), where n = "hc + 1" and log = "es1 @ es2"] by blast
  obtain st4 fw' acc es4 where
    l4: "fw_loop eng hc observe ks st3 fw ainit ((es1 @ es2) @ es3)
        = Some (st4, fw', acc, ((es1 @ es2) @ es3) @ es4)"
    and r4: "length es4 = 5 * length ks"
      "map lane_index es4 = concat (map (round_schedule hc (st_x st3) (fw_x2 fw)) [0..<length ks])"
      "fw_trace eng fw es4" "length (round_outs es4) = length ks"
      "observe_fold observe (zip ks (round_outs es4)) ainit = Some acc"
    using fw_loop_ok[where ks = ks and observe = observe and acc = ainit
        and log = "(es1 @ es2) @ es3", OF eng hc r3(1) f ob] by blast
  let ?log = "((es1 @ es2) @ es3) @ es4"
  have sch: "map lane_index ?log = schedule_B hc 0 (length ks)"
    using r1(2,4) r2(2,4) r3(2,4) r4(2) x y schedule_B_parts[of hc "length ks"] by simp
  have len: "length ?log = 2 * hc + 6 + 5 * length ks" using r1(3) r2(3) r3(3) r4(1) by simp
  have n4: "?log ! 4 = last es1"
    using r1(3) by (cases "es1 = []") (simp_all add: nth_append last_conv_nth)
  have td: "take hc (drop 5 ?log) = es2" using r1(3) r2(3) by simp
  have d4: "drop (2 * hc + 6) ?log = es4" using r1(3) r2(3) r3(3) by simp
  have ivt: "iv_trace eng ivlen iv 0 (call_seed (?log ! 4)) (call_lcg (?log ! 4))
      (take hc (drop 5 ?log))"
    unfolding n4 td using r2(5) sd by simp
  have fwt: "fw_trace eng fw (drop (2 * hc + 6) ?log)" unfolding d4 by (rule r4(3))
  have lro: "length (round_outs (drop (2 * hc + 6) ?log)) = length ks"
    unfolding d4 by (rule r4(4))
  have obf: "observe_fold observe (zip ks (round_outs (drop (2 * hc + 6) ?log))) ainit = Some acc"
    unfolding d4 by (rule r4(5))
  show ?thesis
    by (intro exI[of _ st1] exI[of _ es1] exI[of _ st2] exI[of _ "min (hc div 2) ivlen"]
        exI[of _ "es1 @ es2"] exI[of _ st3] exI[of _ "(es1 @ es2) @ es3"] exI[of _ st4]
        exI[of _ fw'] exI[of _ acc] exI[of _ ?log] conjI)
       (rule l1' l2' l3 l4 sch len ivt fwt lro obf)+
qed

lemma select_rounds:
  "concat (map (\<lambda>j. if fc \<le> j then f j else []) [0..<fc + n])
     = concat (map (\<lambda>r. f (fc + r)) [0..<n])"
proof -
  have "concat (map (\<lambda>j. if fc \<le> j then f j else []) [0..<fc]) = []"
    by simp
  then show ?thesis
    unfolding map_upt_add[of _ fc n] by simp
qed

lemma observe_fold_calc4:
  "length outs = n \<Longrightarrow>
   observe_fold (calc_observe4 fc) (zip [k0..<k0 + n] outs) acc
     = Some (acc @ concat (map (\<lambda>j. if fc \<le> k0 + j then quad_list (outs ! j) else []) [0..<n]))"
proof (induction n arbitrary: k0 outs acc)
  case 0
  then show ?case by simp
next
  case (Suc n)
  obtain out outs' where o: "outs = out # outs'" and l: "length outs' = n"
    using Suc.prems(1) by (cases outs) simp_all
  obtain a b c d where q: "out = (a, b, c, d)" by (cases out)
  have u: "[k0..<k0 + Suc n] = k0 # [Suc k0..<Suc k0 + n]"
    by (simp add: upt_conv_Cons del: upt_Suc)
  define ks' where "ks' = [Suc k0..<Suc k0 + n]"
  define acc1 where "acc1 = (if fc \<le> k0 then acc @ [a, b, c, d] else acc)"
  have step: "calc_observe4 fc k0 out acc = Some acc1"
    by (simp add: calc_observe4_def q acc1_def)
  have ih: "observe_fold (calc_observe4 fc) (zip ks' outs') acc1
     = Some (acc1 @ concat (map (\<lambda>j. if fc \<le> Suc k0 + j then quad_list (outs' ! j) else [])
                              [0..<n]))"
    unfolding ks'_def by (rule Suc.IH[OF l])
  have unf: "observe_fold (calc_observe4 fc) (zip (k0 # ks') (out # outs')) acc
     = observe_fold (calc_observe4 fc) (zip ks' outs') acc1"
    by (simp add: step)
  have rhs: "acc @ concat (map (\<lambda>j. if fc \<le> k0 + j then quad_list ((out # outs') ! j) else [])
                              [0..<Suc n])
     = acc1 @ concat (map (\<lambda>j. if fc \<le> Suc k0 + j then quad_list (outs' ! j) else []) [0..<n])"
    unfolding map_upt_Suc by (simp add: acc1_def quad_list_def q cong: if_cong)
  show ?case
    unfolding u o rhs ks'_def[symmetric] unf by (rule ih)
qed

lemma observe_fold_sat4:
  "length outs = n \<Longrightarrow> 4 * num_obs \<le> length obs \<Longrightarrow> k0 + n \<le> fc + num_obs \<Longrightarrow>
   observe_fold (sat_observe4 fc obs) (zip [k0..<k0 + n] outs) acc
     = Some (acc @ concat (map (\<lambda>j. if fc \<le> k0 + j
                                     then quad_constraints obs (k0 + j - fc) (outs ! j) else [])
                            [0..<n]))"
proof (induction n arbitrary: k0 outs acc)
  case 0
  then show ?case by simp
next
  case (Suc n)
  obtain out outs' where o: "outs = out # outs'" and l: "length outs' = n"
    using Suc.prems(1) by (cases outs) simp_all
  obtain a b c d where q: "out = (a, b, c, d)" by (cases out)
  have u: "[k0..<k0 + Suc n] = k0 # [Suc k0..<Suc k0 + n]"
    by (simp add: upt_conv_Cons del: upt_Suc)
  have k': "Suc k0 + n \<le> fc + num_obs" using Suc.prems(3) by simp
  have step: "sat_observe4 fc obs k0 out acc
      = Some (if fc \<le> k0 then acc @ quad_constraints obs (k0 - fc) out else acc)"
  proof (cases "fc \<le> k0")
    case True
    then have "k0 - fc < num_obs" using Suc.prems(3) by simp
    then have b: "(k0 - fc) * 4 + 3 < length obs" using Suc.prems(2) by simp
    then have "(k0 - fc) * 4 + 0 < length obs" "(k0 - fc) * 4 + 1 < length obs"
      "(k0 - fc) * 4 + 2 < length obs" by simp_all
    then show ?thesis
      using True b unfolding sat_observe4_def q quad_constraints_def
      by (simp only: make_equal_bits_Some) simp
  next
    case False
    then show ?thesis by (simp add: sat_observe4_def q)
  qed
  define ks' where "ks' = [Suc k0..<Suc k0 + n]"
  define acc1 where "acc1 = (if fc \<le> k0 then acc @ quad_constraints obs (k0 - fc) out else acc)"
  have ih: "observe_fold (sat_observe4 fc obs) (zip ks' outs') acc1
     = Some (acc1 @ concat (map (\<lambda>j. if fc \<le> Suc k0 + j
                                       then quad_constraints obs (Suc k0 + j - fc) (outs' ! j)
                                       else []) [0..<n]))"
    unfolding ks'_def by (rule Suc.IH[OF l Suc.prems(2) k'])
  have unf: "observe_fold (sat_observe4 fc obs) (zip (k0 # ks') (out # outs')) acc
     = observe_fold (sat_observe4 fc obs) (zip ks' outs') acc1"
    by (simp add: step acc1_def)
  have rhs: "acc @ concat (map (\<lambda>j. if fc \<le> k0 + j
                                     then quad_constraints obs (k0 + j - fc) ((out # outs') ! j)
                                     else []) [0..<Suc n])
     = acc1 @ concat (map (\<lambda>j. if fc \<le> Suc k0 + j
                                  then quad_constraints obs (Suc k0 + j - fc) (outs' ! j)
                                  else []) [0..<n])"
    unfolding map_upt_Suc by (simp add: acc1_def cong: if_cong)
  show ?case
    unfolding u o rhs ks'_def[symmetric] unf by (rule ih)
qed

lemma fw_good_calc: "fw_good (\<lambda>_. True) ((a, b), (c, d), (e, f), (g, h), [v0, v1, v2, v3, v4], x)"
  by (simp add: fw_good_def)

lemma fw_good_sat:
  assumes "length z = bits"
  shows "fw_good (\<lambda>v. length v = bits) ((z, z), (z, z), (z, z), (z, z), [z, z, z, z, z], x)"
  using assms by (simp add: fw_good_def)

lemma t642_calc_run:
  assumes "0 < hc" and "hci \<le> length hcv" and "ivlen \<le> length iv"
  shows "\<exists>obs log. t642_calc bits hci ivlen seed_i hcv iv hc fc num_obs = Some (obs, log)
    \<and> map lane_index log = schedule_B hc fc num_obs
    \<and> length log = 2 * hc + 6 + 5 * (fc + num_obs)
    \<and> iv_trace (calc_engine bits) ivlen iv 0 (call_seed (log ! 4)) (call_lcg (log ! 4))
         (take hc (drop 5 log))
    \<and> fw_trace (calc_engine bits) ((0, 0), (0, 0), (0, 0), (0, 0), [0, 0, 0, 0, 0], 0)
         (drop (2 * hc + 6) log)
    \<and> length obs = 4 * num_obs
    \<and> obs = concat (map (\<lambda>r. quad_list (round_outs (drop (2 * hc + 6) log) ! (fc + r)))
                     [0..<num_obs])"
proof -
  let ?h = "map (\<lambda>i. if i < hci then hcv ! i AND bmask bits else 0) [0..<hc]"
  let ?st = "(seed_i AND bmask bits, 0::int, ?h, 0::nat)"
  let ?fw = "((0::int, 0::int), (0::int, 0::int), (0::int, 0::int), (0::int, 0::int),
              [0::int, 0, 0, 0, 0], 0::nat)"
  let ?ks = "[0..<fc + num_obs]"
  have g: "good (\<lambda>_. True) hc ?st" by (rule good_calc_init) simp
  have x: "st_x ?st = 0" by (simp add: st_x_def)
  have f: "fw_good (\<lambda>_. True) ?fw" by (rule fw_good_calc)
  have y: "fw_x2 ?fw = 0" by (simp add: fw_x2_def)
  have ob: "\<And>k outs a. k \<in> set ?ks \<Longrightarrow> \<exists>a'. calc_observe4 fc k outs a = Some a'"
    by (simp add: calc_observe4_def split: prod.splits)
  obtain st1 log1 st2 ivpos log2 st3 log3 st4 fw' acc log where
    r: "init_loop (e_core (calc_engine bits)) hc 5 ?st [] = Some (st1, log1)"
      "iv_loop (calc_engine bits) hc ivlen iv [0..<hc] st1 0 log1 = Some (st2, ivpos, log2)"
      "fill_loop (e_core (calc_engine bits)) hc (hc + 1) st2 log2 = Some (st3, log3)"
      "fw_loop (calc_engine bits) hc (calc_observe4 fc) ?ks st3 ?fw [] log3
         = Some (st4, fw', acc, log)"
      "map lane_index log = schedule_B hc 0 (length ?ks)"
      "length log = 2 * hc + 6 + 5 * length ?ks"
      "iv_trace (calc_engine bits) ivlen iv 0 (call_seed (log ! 4)) (call_lcg (log ! 4))
         (take hc (drop 5 log))"
      "fw_trace (calc_engine bits) ?fw (drop (2 * hc + 6) log)"
      "length (round_outs (drop (2 * hc + 6) log)) = length ?ks"
      "observe_fold (calc_observe4 fc) (zip ?ks (round_outs (drop (2 * hc + 6) log))) [] = Some acc"
    using t642_run_generic[where eng = "calc_engine bits" and P = "\<lambda>_. True" and st = ?st
        and fw = ?fw and ks = ?ks and observe = "calc_observe4 fc" and ainit = "[]"
        and ivlen = ivlen and iv = iv,
        OF engine_ok_calc assms(1) g x f y assms(3) ob]
    by blast
  let ?ro = "round_outs (drop (2 * hc + 6) log)"
  have lro: "length ?ro = fc + num_obs" using r(9) by simp
  have "acc = concat (map (\<lambda>j. if fc \<le> 0 + j then quad_list (?ro ! j) else []) [0..<fc + num_obs])"
    using observe_fold_calc4[OF lro, of fc 0 "[]"] r(10) by simp
  then have acc: "acc = concat (map (\<lambda>r. quad_list (?ro ! (fc + r))) [0..<num_obs])"
    using select_rounds[of fc "\<lambda>j. quad_list (?ro ! j)" num_obs] by (simp cong: if_cong)
  have lacc: "length acc = 4 * num_obs"
    unfolding acc by (induction num_obs) (simp_all add: quad_list_def split: prod.splits)
  have core: "e_core (calc_engine bits) = calc_core bits" by (simp add: calc_engine_def)
  have run: "t642_calc bits hci ivlen seed_i hcv iv hc fc num_obs = Some (acc, log)"
    unfolding t642_calc_def calc_h_init_Some[OF assms(2)]
    using r(1,2,3,4) by (simp add: core del: fill_loop.simps init_loop.simps)
  have sch: "map lane_index log = schedule_B hc fc num_obs"
    using r(5) by (simp add: schedule_B_fc)
  have len: "length log = 2 * hc + 6 + 5 * (fc + num_obs)" using r(6) by simp
  show ?thesis
    by (intro exI[of _ acc] exI[of _ log] conjI) (rule run sch len r(7) r(8) lacc acc)+
qed

lemma t642_sat_run:
  assumes "0 < bits" and "0 < hc" and "ivlen \<le> length iv" and "4 * num_obs \<le> length obs"
  shows "\<exists>cons log. t642_sat bits hci ivlen iv hc fc num_obs obs = Some (cons, log)
    \<and> map lane_index log = schedule_B hc fc num_obs
    \<and> length log = 2 * hc + 6 + 5 * (fc + num_obs)
    \<and> iv_trace (sat_engine bits) ivlen iv 0 (call_seed (log ! 4)) (call_lcg (log ! 4))
         (take hc (drop 5 log))
    \<and> fw_trace (sat_engine bits)
         ((inibits bits 0, inibits bits 0), (inibits bits 0, inibits bits 0),
          (inibits bits 0, inibits bits 0), (inibits bits 0, inibits bits 0),
          [inibits bits 0, inibits bits 0, inibits bits 0, inibits bits 0, inibits bits 0], 0)
         (drop (2 * hc + 6) log)
    \<and> cons = concat (map (\<lambda>r. quad_constraints obs r
                               (round_outs (drop (2 * hc + 6) log) ! (fc + r)))
                     [0..<num_obs])"
proof -
  let ?P = "\<lambda>v :: bitf list. length v = bits"
  let ?z = "inibits bits 0"
  let ?st = "(new_vars 0 bits, ?z, sat_h_init bits hci hc bits, 0::nat)"
  let ?fw = "((?z, ?z), (?z, ?z), (?z, ?z), (?z, ?z), [?z, ?z, ?z, ?z, ?z], 0::nat)"
  let ?ks = "[0..<fc + num_obs]"
  have g: "good ?P hc ?st" by (rule good_sat_init) (simp_all add: length_new_vars length_inibits)
  have x: "st_x ?st = 0" by (simp add: st_x_def)
  have f: "fw_good ?P ?fw" by (rule fw_good_sat) (simp add: length_inibits)
  have y: "fw_x2 ?fw = 0" by (simp add: fw_x2_def)
  have ob: "\<And>k outs a. k \<in> set ?ks \<Longrightarrow> \<exists>a'. sat_observe4 fc obs k outs a = Some a'"
  proof -
    fix k outs a
    assume "k \<in> set ?ks"
    then have k: "k + 1 \<le> fc + num_obs" by simp
    have "observe_fold (sat_observe4 fc obs) (zip [k..<k + 1] [outs]) a \<noteq> None"
      using observe_fold_sat4[OF _ assms(4) k, of "[outs]" a] by simp
    then show "\<exists>a'. sat_observe4 fc obs k outs a = Some a'"
      by (cases "sat_observe4 fc obs k outs a") simp_all
  qed
  obtain st1 log1 st2 ivpos log2 st3 log3 st4 fw' acc log where
    r: "init_loop (e_core (sat_engine bits)) hc 5 ?st [] = Some (st1, log1)"
      "iv_loop (sat_engine bits) hc ivlen iv [0..<hc] st1 0 log1 = Some (st2, ivpos, log2)"
      "fill_loop (e_core (sat_engine bits)) hc (hc + 1) st2 log2 = Some (st3, log3)"
      "fw_loop (sat_engine bits) hc (sat_observe4 fc obs) ?ks st3 ?fw [] log3
         = Some (st4, fw', acc, log)"
      "map lane_index log = schedule_B hc 0 (length ?ks)"
      "length log = 2 * hc + 6 + 5 * length ?ks"
      "iv_trace (sat_engine bits) ivlen iv 0 (call_seed (log ! 4)) (call_lcg (log ! 4))
         (take hc (drop 5 log))"
      "fw_trace (sat_engine bits) ?fw (drop (2 * hc + 6) log)"
      "length (round_outs (drop (2 * hc + 6) log)) = length ?ks"
      "observe_fold (sat_observe4 fc obs) (zip ?ks (round_outs (drop (2 * hc + 6) log))) []
         = Some acc"
    using t642_run_generic[where eng = "sat_engine bits" and P = ?P and st = ?st
        and fw = ?fw and ks = ?ks and observe = "sat_observe4 fc obs" and ainit = "[]"
        and ivlen = ivlen and iv = iv,
        OF engine_ok_sat[OF assms(1)] assms(2) g x f y assms(3) ob]
    by blast
  let ?ro = "round_outs (drop (2 * hc + 6) log)"
  have lro: "length ?ro = fc + num_obs" using r(9) by simp
  have le: "0 + (fc + num_obs) \<le> fc + num_obs" by simp
  have "acc = concat (map (\<lambda>j. if fc \<le> 0 + j then quad_constraints obs (0 + j - fc) (?ro ! j)
                               else []) [0..<fc + num_obs])"
    using observe_fold_sat4[OF lro assms(4) le, of "[]"] r(10) by simp
  then have acc: "acc = concat (map (\<lambda>r. quad_constraints obs r (?ro ! (fc + r))) [0..<num_obs])"
    using select_rounds[of fc "\<lambda>j. quad_constraints obs (j - fc) (?ro ! j)" num_obs]
    by (simp cong: if_cong)
  have core: "e_core (sat_engine bits) = prvhash_core_sat bits" by (simp add: sat_engine_def)
  have run: "t642_sat bits hci ivlen iv hc fc num_obs obs = Some (acc, log)"
    unfolding t642_sat_def Let_def
    using r(1,2,3,4) by (simp add: core del: fill_loop.simps init_loop.simps)
  have sch: "map lane_index log = schedule_B hc fc num_obs"
    using r(5) by (simp add: schedule_B_fc)
  have len: "length log = 2 * hc + 6 + 5 * (fc + num_obs)" using r(6) by simp
  show ?thesis
    by (intro exI[of _ acc] exI[of _ log] conjI) (rule run sch len r(7) r(8) acc)+
qed

section \<open>The schedule of the calls\<close>

text \<open>
  Claim C6, as stated: the element of the hash array passed to successive calls is
  selected by a counter that advances by one modulo \<^verbatim>\<open>hc\<close> after every call. It does not
  hold for the first calls of a run: the loop \<^verbatim>\<open>for i in range(5)\<close> of both scripts does
  not advance the counter. With \<open>hc = 2\<close> the concrete run of Variant A passes element 0
  six times in a row, where a round-robin over all calls would alternate from the first
  call on.
\<close>

theorem round_robin_counterexample:
  "map_option (map call_index \<circ> snd) (gradilac_calc 6 2 4 5 [13, 4] 2 1)
     = Some [0, 0, 0, 0, 0, 0, 1, 0, 1, 0]
   \<and> [0, 0, 0, 0, 0, 0, 1, 0, 1, 0] \<noteq> [0, 1, 0, 1, 0, 1, 0, 1, 0, 1 :: nat]"
  by code_simp

text \<open>
  Claim C6, amended. Every run of either variant returns, and the element passed to each
  call is given by the schedules above: the first five calls all pass element 0, the
  counter not being advanced by them; from the sixth call on the element passed to the
  main core is a counter that starts at 0 and advances by one modulo \<^verbatim>\<open>hc\<close> after
  every call of the main core. In Variant B the four firewall cores pass elements of
  their own array of five words: in round \<open>r\<close> the firewall core \<open>k\<close> passes element
  \<open>(r + k - 1) mod 5\<close>, the counter of the rounds advancing once per round. In every
  call the hash word passed to the core is the current content of that element, the
  call is a step of the core on it, and the hash word returned replaces it: the calls
  of the main core form a trace from the initial state, and the blocks of the rounds a
  trace of the firewall cores from the all-zero state.
\<close>

theorem call_schedule:
  assumes "0 < bits" and "0 < hc" and "hci \<le> length hcv" and "ivlen \<le> length iv"
  shows "\<exists>obsA clogA consA slogA obsB clogB consB slogB.
      gradilac_calc bits hci seed_i lcg_i hcv hc num_obs = Some (obsA, clogA)
    \<and> gradilac_sat bits hci hc num_obs obsA = Some (consA, slogA)
    \<and> t642_calc bits hci ivlen seed_i hcv iv hc fc num_obs = Some (obsB, clogB)
    \<and> t642_sat bits hci ivlen iv hc fc num_obs obsB = Some (consB, slogB)
    \<and> map lane_index clogA = schedule_A hc num_obs
    \<and> map lane_index slogA = schedule_A hc num_obs
    \<and> map lane_index clogB = schedule_B hc fc num_obs
    \<and> map lane_index slogB = schedule_B hc fc num_obs
    \<and> main_trace (calc_engine bits) (replicate (5 + (hc + 1) + 2 * num_obs) None)
         (seed_i AND bmask bits, lcg_i AND bmask bits,
          map (\<lambda>i. if i < hci then hcv ! i AND bmask bits else 0) [0..<hc]) clogA
    \<and> main_trace (sat_engine bits) (replicate (5 + (hc + 1) + 2 * num_obs) None)
         (new_vars 0 bits, new_vars bits bits, sat_h_init bits hci hc (2 * bits)) slogA
    \<and> main_trace (calc_engine bits)
         (replicate 5 None @ map (nonce_word ivlen iv) [0..<hc]
            @ replicate (hc + 1) None @ replicate (fc + num_obs) None)
         (seed_i AND bmask bits, 0,
          map (\<lambda>i. if i < hci then hcv ! i AND bmask bits else 0) [0..<hc])
         (main_calls clogB)
    \<and> main_trace (sat_engine bits)
         (replicate 5 None @ map (nonce_word ivlen iv) [0..<hc]
            @ replicate (hc + 1) None @ replicate (fc + num_obs) None)
         (new_vars 0 bits, inibits bits 0, sat_h_init bits hci hc bits)
         (main_calls slogB)
    \<and> fw_trace (calc_engine bits) ((0, 0), (0, 0), (0, 0), (0, 0), [0, 0, 0, 0, 0], 0)
         (drop (2 * hc + 6) clogB)
    \<and> fw_trace (sat_engine bits)
         ((inibits bits 0, inibits bits 0), (inibits bits 0, inibits bits 0),
          (inibits bits 0, inibits bits 0), (inibits bits 0, inibits bits 0),
          [inibits bits 0, inibits bits 0, inibits bits 0, inibits bits 0, inibits bits 0], 0)
         (drop (2 * hc + 6) slogB)"
proof -
  obtain obsA clogA where a: "gradilac_calc bits hci seed_i lcg_i hcv hc num_obs = Some (obsA, clogA)"
    "map lane_index clogA = schedule_A hc num_obs" "length obsA = num_obs"
    using gradilac_calc_run[OF assms(2,3), of bits seed_i lcg_i num_obs] by blast
  have na: "num_obs \<le> length obsA" using a(3) by simp
  obtain consA slogA where b: "gradilac_sat bits hci hc num_obs obsA = Some (consA, slogA)"
    "map lane_index slogA = schedule_A hc num_obs"
    using gradilac_sat_run[OF assms(1,2) na, of hci] by blast
  obtain obsB clogB where c: "t642_calc bits hci ivlen seed_i hcv iv hc fc num_obs = Some (obsB, clogB)"
    "map lane_index clogB = schedule_B hc fc num_obs" "length obsB = 4 * num_obs"
    "fw_trace (calc_engine bits) ((0, 0), (0, 0), (0, 0), (0, 0), [0, 0, 0, 0, 0], 0)
         (drop (2 * hc + 6) clogB)"
    using t642_calc_run[OF assms(2,3,4), of bits seed_i fc num_obs] by blast
  have nb: "4 * num_obs \<le> length obsB" using c(3) by simp
  obtain consB slogB where d: "t642_sat bits hci ivlen iv hc fc num_obs obsB = Some (consB, slogB)"
    "map lane_index slogB = schedule_B hc fc num_obs"
    "fw_trace (sat_engine bits)
         ((inibits bits 0, inibits bits 0), (inibits bits 0, inibits bits 0),
          (inibits bits 0, inibits bits 0), (inibits bits 0, inibits bits 0),
          [inibits bits 0, inibits bits 0, inibits bits 0, inibits bits 0, inibits bits 0], 0)
         (drop (2 * hc + 6) slogB)"
    using t642_sat_run[OF assms(1,2,4) nb, of hci fc] by blast
  note ta = gradilac_calc_trace[OF a(1) assms(3)]
  note tb = gradilac_sat_trace[OF b(1)]
  note tc = t642_calc_trace[OF c(1) assms(3)]
  note td = t642_sat_trace[OF d(1)]
  show ?thesis
    by (intro exI[of _ obsA] exI[of _ clogA] exI[of _ consA] exI[of _ slogA]
        exI[of _ obsB] exI[of _ clogB] exI[of _ consB] exI[of _ slogB] conjI)
       (rule a(1,2) b c(1,2,4) d ta tb tc td)+
qed

theorem call_schedule_witness:
  "\<exists>obsA clogA consA slogA obsB clogB consB slogB.
      gradilac_calc 6 2 4 5 [13, 4] 2 1 = Some (obsA, clogA)
    \<and> gradilac_sat 6 2 2 1 obsA = Some (consA, slogA)
    \<and> t642_calc 6 2 1 4 [13, 4] [3] 2 1 1 = Some (obsB, clogB)
    \<and> t642_sat 6 2 1 [3] 2 1 1 obsB = Some (consB, slogB)
    \<and> map lane_index clogA = [(0, 0), (0, 0), (0, 0), (0, 0), (0, 0), (0, 0), (0, 1), (0, 0), (0, 1), (0, 0)]
    \<and> map lane_index slogA = [(0, 0), (0, 0), (0, 0), (0, 0), (0, 0), (0, 0), (0, 1), (0, 0), (0, 1), (0, 0)]
    \<and> map lane_index clogB = [(0, 0), (0, 0), (0, 0), (0, 0), (0, 0), (0, 0), (0, 1), (0, 0), (0, 1), (0, 0),
          (0, 1), (1, 0), (2, 1), (3, 2), (4, 3), (0, 0), (1, 1), (2, 2), (3, 3), (4, 4)]
    \<and> map lane_index slogB = [(0, 0), (0, 0), (0, 0), (0, 0), (0, 0), (0, 0), (0, 1), (0, 0), (0, 1), (0, 0),
          (0, 1), (1, 0), (2, 1), (3, 2), (4, 3), (0, 0), (1, 1), (2, 2), (3, 3), (4, 4)]
    \<and> main_trace (calc_engine 6) (replicate (5 + (2 + 1) + 2 * 1) None)
         (4 AND bmask 6, 5 AND bmask 6,
          map (\<lambda>i. if i < 2 then [13, 4] ! i AND bmask 6 else 0) [0..<2]) clogA
    \<and> main_trace (sat_engine 6) (replicate (5 + (2 + 1) + 2 * 1) None)
         (new_vars 0 6, new_vars 6 6, sat_h_init 6 2 2 (2 * 6)) slogA
    \<and> main_trace (calc_engine 6)
         (replicate 5 None @ map (nonce_word 1 [3]) [0..<2]
            @ replicate (2 + 1) None @ replicate (1 + 1) None)
         (4 AND bmask 6, 0,
          map (\<lambda>i. if i < 2 then [13, 4] ! i AND bmask 6 else 0) [0..<2])
         (main_calls clogB)
    \<and> main_trace (sat_engine 6)
         (replicate 5 None @ map (nonce_word 1 [3]) [0..<2]
            @ replicate (2 + 1) None @ replicate (1 + 1) None)
         (new_vars 0 6, inibits 6 0, sat_h_init 6 2 2 6)
         (main_calls slogB)
    \<and> fw_trace (calc_engine 6) ((0, 0), (0, 0), (0, 0), (0, 0), [0, 0, 0, 0, 0], 0)
         (drop (2 * 2 + 6) clogB)
    \<and> fw_trace (sat_engine 6)
         ((inibits 6 0, inibits 6 0), (inibits 6 0, inibits 6 0),
          (inibits 6 0, inibits 6 0), (inibits 6 0, inibits 6 0),
          [inibits 6 0, inibits 6 0, inibits 6 0, inibits 6 0, inibits 6 0], 0)
         (drop (2 * 2 + 6) slogB)"
proof -
  have a: "(0::nat) < 6" and b: "(0::nat) < 2" and c: "(2::nat) \<le> length [13::int, 4]"
    and d: "(1::nat) \<le> length [3::int]"
    by simp_all
  have sa: "[(0, 0), (0, 0), (0, 0), (0, 0), (0, 0), (0, 0), (0, 1), (0, 0), (0, 1), (0, 0)] = schedule_A 2 1"
    by code_simp
  have sb: "[(0, 0), (0, 0), (0, 0), (0, 0), (0, 0), (0, 0), (0, 1), (0, 0), (0, 1), (0, 0),
          (0, 1), (1, 0), (2, 1), (3, 2), (4, 3), (0, 0), (1, 1), (2, 2), (3, 3), (4, 4)] = schedule_B 2 1 1"
    by code_simp
  show ?thesis unfolding sa sb by (rule call_schedule[OF a b c d])
qed

section \<open>The firewall rounds of Variant B\<close>

lemma drop_schedule_B:
  "drop (2 * hc + 6) (schedule_B hc fc num_obs)
     = concat (map (round_schedule hc (2 * hc + 1) 0) [0..<fc + num_obs])"
  by (simp add: schedule_B_def)

text \<open>
  Claim C8. In Variant B both runs complete; after the \<open>5 + hc + (hc + 1)\<close> calls that
  precede them, the \<open>fc + num_obs\<close> rounds are blocks of five calls: one of the main
  core, whose output is mixed by exclusive or into the \<^verbatim>\<open>seed\<close> of the fourth firewall
  core, then one of each of the four firewall cores, starting from the all-zero state.
  The calls of the main core, those of the rounds included, form a trace of the main
  core from the initial state, and the blocks a trace of the firewall cores: every call
  is a step of the core on the \<^verbatim>\<open>seed\<close> and \<^verbatim>\<open>lcg\<close> of its own core and on the current
  content of its element of its array. The observations are the four firewall outputs
  of the rounds \<open>fc\<close> to \<open>fc + num_obs - 1\<close>, in order, and the constraints of the symbolic
  run pair every bit of the four symbolic outputs of those rounds with the same bit of
  the corresponding observation; the first \<open>fc\<close> rounds contribute nothing.
\<close>

theorem firewall_rounds:
  assumes "0 < bits" and "0 < hc" and "hci \<le> length hcv" and "ivlen \<le> length iv"
  shows "\<exists>obs clog cons slog.
      t642_calc bits hci ivlen seed_i hcv iv hc fc num_obs = Some (obs, clog)
    \<and> t642_sat bits hci ivlen iv hc fc num_obs obs = Some (cons, slog)
    \<and> length clog = 5 + hc + (hc + 1) + 5 * (fc + num_obs)
    \<and> length slog = 5 + hc + (hc + 1) + 5 * (fc + num_obs)
    \<and> map lane_index clog = schedule_B hc fc num_obs
    \<and> map lane_index slog = schedule_B hc fc num_obs
    \<and> map lane_index (drop (2 * hc + 6) clog)
         = concat (map (round_schedule hc (2 * hc + 1) 0) [0..<fc + num_obs])
    \<and> map lane_index (drop (2 * hc + 6) slog)
         = concat (map (round_schedule hc (2 * hc + 1) 0) [0..<fc + num_obs])
    \<and> main_trace (calc_engine bits)
         (replicate 5 None @ map (nonce_word ivlen iv) [0..<hc]
            @ replicate (hc + 1) None @ replicate (fc + num_obs) None)
         (seed_i AND bmask bits, 0,
          map (\<lambda>i. if i < hci then hcv ! i AND bmask bits else 0) [0..<hc])
         (main_calls clog)
    \<and> main_trace (sat_engine bits)
         (replicate 5 None @ map (nonce_word ivlen iv) [0..<hc]
            @ replicate (hc + 1) None @ replicate (fc + num_obs) None)
         (new_vars 0 bits, inibits bits 0, sat_h_init bits hci hc bits)
         (main_calls slog)
    \<and> fw_trace (calc_engine bits) ((0, 0), (0, 0), (0, 0), (0, 0), [0, 0, 0, 0, 0], 0)
         (drop (2 * hc + 6) clog)
    \<and> fw_trace (sat_engine bits)
         ((inibits bits 0, inibits bits 0), (inibits bits 0, inibits bits 0),
          (inibits bits 0, inibits bits 0), (inibits bits 0, inibits bits 0),
          [inibits bits 0, inibits bits 0, inibits bits 0, inibits bits 0, inibits bits 0], 0)
         (drop (2 * hc + 6) slog)
    \<and> length obs = 4 * num_obs
    \<and> obs = concat (map (\<lambda>r. quad_list (round_outs (drop (2 * hc + 6) clog) ! (fc + r)))
                     [0..<num_obs])
    \<and> cons = concat (map (\<lambda>r. quad_constraints obs r
                               (round_outs (drop (2 * hc + 6) slog) ! (fc + r)))
                     [0..<num_obs])"
proof -
  obtain obs clog where c: "t642_calc bits hci ivlen seed_i hcv iv hc fc num_obs = Some (obs, clog)"
    "map lane_index clog = schedule_B hc fc num_obs"
    "length clog = 2 * hc + 6 + 5 * (fc + num_obs)"
    "fw_trace (calc_engine bits) ((0, 0), (0, 0), (0, 0), (0, 0), [0, 0, 0, 0, 0], 0)
         (drop (2 * hc + 6) clog)"
    "length obs = 4 * num_obs"
    "obs = concat (map (\<lambda>r. quad_list (round_outs (drop (2 * hc + 6) clog) ! (fc + r)))
                     [0..<num_obs])"
    using t642_calc_run[OF assms(2,3,4), of bits seed_i fc num_obs] by blast
  have nb: "4 * num_obs \<le> length obs" using c(5) by simp
  obtain cons slog where s: "t642_sat bits hci ivlen iv hc fc num_obs obs = Some (cons, slog)"
    "map lane_index slog = schedule_B hc fc num_obs"
    "length slog = 2 * hc + 6 + 5 * (fc + num_obs)"
    "fw_trace (sat_engine bits)
         ((inibits bits 0, inibits bits 0), (inibits bits 0, inibits bits 0),
          (inibits bits 0, inibits bits 0), (inibits bits 0, inibits bits 0),
          [inibits bits 0, inibits bits 0, inibits bits 0, inibits bits 0, inibits bits 0], 0)
         (drop (2 * hc + 6) slog)"
    "cons = concat (map (\<lambda>r. quad_constraints obs r
                               (round_outs (drop (2 * hc + 6) slog) ! (fc + r)))
                     [0..<num_obs])"
    using t642_sat_run[OF assms(1,2,4) nb, of hci fc] by blast
  have lc: "length clog = 5 + hc + (hc + 1) + 5 * (fc + num_obs)" using c(3) by simp
  have ls: "length slog = 5 + hc + (hc + 1) + 5 * (fc + num_obs)" using s(3) by simp
  have dc: "map lane_index (drop (2 * hc + 6) clog)
         = concat (map (round_schedule hc (2 * hc + 1) 0) [0..<fc + num_obs])"
    unfolding drop_map[symmetric] c(2) by (rule drop_schedule_B)
  have ds: "map lane_index (drop (2 * hc + 6) slog)
         = concat (map (round_schedule hc (2 * hc + 1) 0) [0..<fc + num_obs])"
    unfolding drop_map[symmetric] s(2) by (rule drop_schedule_B)
  note tc = t642_calc_trace[OF c(1) assms(3)]
  note ts = t642_sat_trace[OF s(1)]
  show ?thesis
    by (intro exI[of _ obs] exI[of _ clog] exI[of _ cons] exI[of _ slog] conjI)
       (rule c(1) s(1) lc ls c(2) s(2) dc ds tc ts c(4) s(4) c(5) c(6) s(5))+
qed

theorem firewall_rounds_witness:
  "\<exists>obs clog cons slog.
      t642_calc 6 2 1 4 [13, 4] [3] 2 1 1 = Some (obs, clog)
    \<and> t642_sat 6 2 1 [3] 2 1 1 obs = Some (cons, slog)
    \<and> length clog = 5 + 2 + (2 + 1) + 5 * (1 + 1)
    \<and> length slog = 5 + 2 + (2 + 1) + 5 * (1 + 1)
    \<and> map lane_index clog = schedule_B 2 1 1
    \<and> map lane_index slog = schedule_B 2 1 1
    \<and> map lane_index (drop (2 * 2 + 6) clog)
         = concat (map (round_schedule 2 (2 * 2 + 1) 0) [0..<1 + 1])
    \<and> map lane_index (drop (2 * 2 + 6) slog)
         = concat (map (round_schedule 2 (2 * 2 + 1) 0) [0..<1 + 1])
    \<and> main_trace (calc_engine 6)
         (replicate 5 None @ map (nonce_word 1 [3]) [0..<2]
            @ replicate (2 + 1) None @ replicate (1 + 1) None)
         (4 AND bmask 6, 0,
          map (\<lambda>i. if i < 2 then [13, 4] ! i AND bmask 6 else 0) [0..<2])
         (main_calls clog)
    \<and> main_trace (sat_engine 6)
         (replicate 5 None @ map (nonce_word 1 [3]) [0..<2]
            @ replicate (2 + 1) None @ replicate (1 + 1) None)
         (new_vars 0 6, inibits 6 0, sat_h_init 6 2 2 6)
         (main_calls slog)
    \<and> fw_trace (calc_engine 6) ((0, 0), (0, 0), (0, 0), (0, 0), [0, 0, 0, 0, 0], 0)
         (drop (2 * 2 + 6) clog)
    \<and> fw_trace (sat_engine 6)
         ((inibits 6 0, inibits 6 0), (inibits 6 0, inibits 6 0),
          (inibits 6 0, inibits 6 0), (inibits 6 0, inibits 6 0),
          [inibits 6 0, inibits 6 0, inibits 6 0, inibits 6 0, inibits 6 0], 0)
         (drop (2 * 2 + 6) slog)
    \<and> length obs = 4 * 1
    \<and> obs = concat (map (\<lambda>r. quad_list (round_outs (drop (2 * 2 + 6) clog) ! (1 + r)))
                     [0..<1])
    \<and> cons = concat (map (\<lambda>r. quad_constraints obs r
                               (round_outs (drop (2 * 2 + 6) slog) ! (1 + r)))
                     [0..<1])"
proof -
  have a: "(0::nat) < 6" and b: "(0::nat) < 2" and c: "(2::nat) \<le> length [13::int, 4]"
    and d: "(1::nat) \<le> length [3::int]"
    by simp_all
  show ?thesis by (rule firewall_rounds[OF a b c d])
qed

section \<open>The shared array of the firewall cores\<close>

lemma drop_block:
  assumes "n + 5 \<le> length xs"
  shows "drop n xs = xs ! n # xs ! (n + 1) # xs ! (n + 2) # xs ! (n + 3) # xs ! (n + 4)
           # drop (n + 5) xs"
proof -
  have a: "drop n xs = xs ! n # drop (Suc n) xs"
    using assms by (simp add: Cons_nth_drop_Suc)
  have b: "drop (Suc n) xs = xs ! (Suc n) # drop (Suc (Suc n)) xs"
    using assms by (simp add: Cons_nth_drop_Suc)
  have c: "drop (Suc (Suc n)) xs = xs ! (Suc (Suc n)) # drop (Suc (Suc (Suc n))) xs"
    using assms by (simp add: Cons_nth_drop_Suc)
  have d: "drop (Suc (Suc (Suc n))) xs
      = xs ! (Suc (Suc (Suc n))) # drop (Suc (Suc (Suc (Suc n)))) xs"
    using assms by (simp add: Cons_nth_drop_Suc)
  have e: "drop (Suc (Suc (Suc (Suc n)))) xs
      = xs ! (Suc (Suc (Suc (Suc n)))) # drop (Suc (Suc (Suc (Suc (Suc n))))) xs"
    using assms by (simp add: Cons_nth_drop_Suc)
  have n5: "n + 5 = Suc (Suc (Suc (Suc (Suc n))))" and n4: "n + 4 = Suc (Suc (Suc (Suc n)))"
    and n3: "n + 3 = Suc (Suc (Suc n))" and n2: "n + 2 = Suc (Suc n)" and n1: "n + 1 = Suc n"
    by simp_all
  show ?thesis unfolding n1 n2 n3 n4 n5 using a b c d e by simp
qed

lemma fw_trace_block:
  assumes "fw_trace eng fw (e0 # e1 # e2 # e3 # e4 # es)"
  shows "\<exists>fw'. fw_trace eng fw' es \<and> fw_x2 fw' = Suc (fw_x2 fw)
      \<and> length (fw_h2 fw') = length (fw_h2 fw)
      \<and> fw_h2 fw' = (fw_h2 fw)[fw_x2 fw mod 5 := call_hash e1,
                               (fw_x2 fw + 1) mod 5 := call_hash e2,
                               (fw_x2 fw + 2) mod 5 := call_hash e3,
                               (fw_x2 fw + 3) mod 5 := call_hash e4]
      \<and> map call_lane [e1, e2, e3, e4] = [1, 2, 3, 4]
      \<and> map call_index [e1, e2, e3, e4]
          = [fw_x2 fw mod 5, (fw_x2 fw + 1) mod 5, (fw_x2 fw + 2) mod 5, (fw_x2 fw + 3) mod 5]
      \<and> call_hash_in e1 = fw_h2 fw ! (fw_x2 fw mod 5)
      \<and> call_hash_in e2 = (fw_h2 fw)[fw_x2 fw mod 5 := call_hash e1] ! ((fw_x2 fw + 1) mod 5)
      \<and> call_hash_in e3
          = (fw_h2 fw)[fw_x2 fw mod 5 := call_hash e1, (fw_x2 fw + 1) mod 5 := call_hash e2]
              ! ((fw_x2 fw + 2) mod 5)
      \<and> call_hash_in e4
          = (fw_h2 fw)[fw_x2 fw mod 5 := call_hash e1, (fw_x2 fw + 1) mod 5 := call_hash e2,
                       (fw_x2 fw + 2) mod 5 := call_hash e3] ! ((fw_x2 fw + 3) mod 5)"
proof -
  obtain seed1 lcg1 seed2 lcg2 seed3 lcg3 seed4 lcg4 h2 x2
    where fw: "fw = ((seed1, lcg1), (seed2, lcg2), (seed3, lcg3), (seed4, lcg4), h2, x2)"
    by (cases fw) auto
  let ?fw' = "((call_seed e1, call_lcg e1), (call_seed e2, call_lcg e2),
               (call_seed e3, call_lcg e3), (call_seed e4, call_lcg e4),
               h2[x2 mod 5 := call_hash e1, (x2 + 1) mod 5 := call_hash e2,
                  (x2 + 2) mod 5 := call_hash e3, (x2 + 3) mod 5 := call_hash e4], x2 + 1)"
  show ?thesis
    using assms unfolding fw
    by (intro exI[of _ ?fw']) (simp add: fw_entry_def fw_x2_def fw_h2_def Let_def)
qed


lemma list5: "5 \<le> length xs \<Longrightarrow> \<exists>a b c d e ys. xs = a # b # c # d # e # ys"
proof -
  assume "5 \<le> length xs"
  then have "0 + 5 \<le> length xs" by simp
  from drop_block[OF this] show ?thesis by (metis drop0)
qed

lemma fw_trace_drop:
  "fw_trace eng fw es \<Longrightarrow> 5 * r \<le> length es \<Longrightarrow>
   \<exists>fw'. fw_trace eng fw' (drop (5 * r) es) \<and> fw_x2 fw' = fw_x2 fw + r
     \<and> length (fw_h2 fw') = length (fw_h2 fw)"
proof (induction r arbitrary: fw es)
  case 0
  then show ?case by (intro exI[of _ fw]) simp
next
  case (Suc r)
  have "5 \<le> length es" using Suc.prems(2) by simp
  then obtain e0 e1 e2 e3 e4 es' where es: "es = e0 # e1 # e2 # e3 # e4 # es'"
    using list5 by blast
  from fw_trace_block[OF Suc.prems(1)[unfolded es]]
  obtain fw1 where f1: "fw_trace eng fw1 es'" "fw_x2 fw1 = Suc (fw_x2 fw)"
    "length (fw_h2 fw1) = length (fw_h2 fw)"
    by blast
  have "5 * r \<le> length es'" using Suc.prems(2) by (simp add: es)
  from Suc.IH[OF f1(1) this]
  obtain fw' where f': "fw_trace eng fw' (drop (5 * r) es')" "fw_x2 fw' = fw_x2 fw1 + r"
    "length (fw_h2 fw') = length (fw_h2 fw1)"
    by blast
  have s5: "5 * Suc r = Suc (Suc (Suc (Suc (Suc (5 * r)))))" by simp
  have d: "drop (5 * r) es' = drop (5 * Suc r) es"
    by (simp only: es s5 drop_Suc_Cons)
  show ?case
    using f' f1(2,3) unfolding d by (intro exI[of _ fw']) simp
qed

lemma mod5_distinct:
  fixes x :: nat
  shows "x mod 5 \<noteq> (x + 1) mod 5" "x mod 5 \<noteq> (x + 2) mod 5" "x mod 5 \<noteq> (x + 3) mod 5"
    "x mod 5 \<noteq> (x + 4) mod 5" "(x + 1) mod 5 \<noteq> (x + 2) mod 5" "(x + 1) mod 5 \<noteq> (x + 3) mod 5"
    "(x + 1) mod 5 \<noteq> (x + 4) mod 5" "(x + 2) mod 5 \<noteq> (x + 3) mod 5"
    "(x + 2) mod 5 \<noteq> (x + 4) mod 5" "(x + 3) mod 5 \<noteq> (x + 4) mod 5"
  by presburger+

lemma fw_two_blocks:
  assumes t: "fw_trace eng fw (a0 # a1 # a2 # a3 # a4 # b0 # b1 # b2 # b3 # b4 # es)"
    and l: "length (fw_h2 fw) = 5"
  shows "call_hash_in b1 = call_hash a2 \<and> call_hash_in b2 = call_hash a3
      \<and> call_hash_in b3 = call_hash a4"
proof -
  define x where "x = fw_x2 fw"
  define h where "h = fw_h2 fw"
  define i0 where "i0 = x mod 5"
  define i1 where "i1 = (x + 1) mod 5"
  define i2 where "i2 = (x + 2) mod 5"
  define i3 where "i3 = (x + 3) mod 5"
  have lh: "length h = 5" using l by (simp add: h_def)
  have b: "i0 < 5" "i1 < 5" "i2 < 5" "i3 < 5" by (simp_all add: i0_def i1_def i2_def i3_def)
  have d: "i0 \<noteq> i1" "i0 \<noteq> i2" "i0 \<noteq> i3" "i1 \<noteq> i2" "i1 \<noteq> i3" "i2 \<noteq> i3"
    unfolding i0_def i1_def i2_def i3_def by (rule mod5_distinct)+
  obtain fw1 where f1: "fw_trace eng fw1 (b0 # b1 # b2 # b3 # b4 # es)"
    "fw_x2 fw1 = Suc x"
    "fw_h2 fw1 = h[i0 := call_hash a1, i1 := call_hash a2, i2 := call_hash a3,
                   i3 := call_hash a4]"
    using fw_trace_block[OF t] unfolding x_def h_def i0_def i1_def i2_def i3_def by blast
  have j: "Suc x mod 5 = i1" "(Suc x + 1) mod 5 = i2" "(Suc x + 2) mod 5 = i3"
    unfolding i1_def i2_def i3_def by presburger+
  obtain fw2 where f2:
    "call_hash_in b1 = fw_h2 fw1 ! i1"
    "call_hash_in b2 = (fw_h2 fw1)[i1 := call_hash b1] ! i2"
    "call_hash_in b3 = (fw_h2 fw1)[i1 := call_hash b1, i2 := call_hash b2] ! i3"
    using fw_trace_block[OF f1(1)] unfolding f1(2) j by blast
  have "call_hash_in b1 = call_hash a2"
    unfolding f2(1) f1(3) using lh b d by (simp add: nth_list_update)
  moreover have "call_hash_in b2 = call_hash a3"
    unfolding f2(2) f1(3) using lh b d by (simp add: nth_list_update)
  moreover have "call_hash_in b3 = call_hash a4"
    unfolding f2(3) f1(3) using lh b d by (simp add: nth_list_update)
  ultimately show ?thesis by simp
qed

lemma fw_three_blocks:
  assumes t: "fw_trace eng fw (a0 # a1 # a2 # a3 # a4 # b0 # b1 # b2 # b3 # b4
                               # c0 # c1 # c2 # c3 # c4 # es)"
    and l: "length (fw_h2 fw) = 5"
  shows "call_hash_in c4 = call_hash a1"
proof -
  define x where "x = fw_x2 fw"
  define h where "h = fw_h2 fw"
  define i0 where "i0 = x mod 5"
  define i1 where "i1 = (x + 1) mod 5"
  define i2 where "i2 = (x + 2) mod 5"
  define i3 where "i3 = (x + 3) mod 5"
  define i4 where "i4 = (x + 4) mod 5"
  have lh: "length h = 5" using l by (simp add: h_def)
  have b: "i0 < 5" "i1 < 5" "i2 < 5" "i3 < 5" "i4 < 5"
    by (simp_all add: i0_def i1_def i2_def i3_def i4_def)
  have d: "i0 \<noteq> i1" "i0 \<noteq> i2" "i0 \<noteq> i3" "i0 \<noteq> i4" "i1 \<noteq> i2" "i1 \<noteq> i3" "i1 \<noteq> i4"
    "i2 \<noteq> i3" "i2 \<noteq> i4" "i3 \<noteq> i4"
    unfolding i0_def i1_def i2_def i3_def i4_def by (rule mod5_distinct)+
  obtain fw1 where f1: "fw_trace eng fw1 (b0 # b1 # b2 # b3 # b4 # c0 # c1 # c2 # c3 # c4 # es)"
    "fw_x2 fw1 = Suc x"
    "fw_h2 fw1 = h[i0 := call_hash a1, i1 := call_hash a2, i2 := call_hash a3,
                   i3 := call_hash a4]"
    using fw_trace_block[OF t] unfolding x_def h_def i0_def i1_def i2_def i3_def by blast
  have j: "Suc x mod 5 = i1" "(Suc x + 1) mod 5 = i2" "(Suc x + 2) mod 5 = i3"
    "(Suc x + 3) mod 5 = i4"
    unfolding i1_def i2_def i3_def i4_def by presburger+
  obtain fw2 where f2: "fw_trace eng fw2 (c0 # c1 # c2 # c3 # c4 # es)"
    "fw_x2 fw2 = Suc (Suc x)"
    "fw_h2 fw2 = (fw_h2 fw1)[i1 := call_hash b1, i2 := call_hash b2, i3 := call_hash b3,
                             i4 := call_hash b4]"
    using fw_trace_block[OF f1(1)] unfolding f1(2) j by blast
  have k: "Suc (Suc x) mod 5 = i2" "(Suc (Suc x) + 1) mod 5 = i3" "(Suc (Suc x) + 2) mod 5 = i4"
    "(Suc (Suc x) + 3) mod 5 = i0"
    unfolding i0_def i2_def i3_def i4_def by presburger+
  obtain fw3 where f3:
    "call_hash_in c4
       = (fw_h2 fw2)[i2 := call_hash c1, i3 := call_hash c2, i4 := call_hash c3] ! i0"
    using fw_trace_block[OF f2(1)] unfolding f2(2) k by blast
  show ?thesis
    unfolding f3 f2(3) f1(3) using lh b d by (simp add: nth_list_update)
qed

lemma map_upt_const: "(\<And>r. r < n \<Longrightarrow> f r = c) \<Longrightarrow> map f [0..<n] = replicate n c"
  by (induction n) (simp_all add: replicate_append_same)

lemma map_upt_eq: "(\<And>r. r < n \<Longrightarrow> f r = g r) \<Longrightarrow> map f [0..<n] = map g [0..<n]"
  by simp

lemma fw_trace_shared:
  assumes t: "fw_trace eng fw es" and l: "length (fw_h2 fw) = 5" and x: "fw_x2 fw = 0"
    and n: "length es = 5 * n"
  shows "shared_array es n"
proof -
  have blk: "\<And>r. r < n \<Longrightarrow> \<exists>fw'. fw_x2 fw' = r \<and> length (fw_h2 fw') = 5
      \<and> fw_trace eng fw' (drop (5 * r) es)"
  proof -
    fix r assume "r < n"
    then have "5 * r \<le> length es" using n by simp
    from fw_trace_drop[OF t this]
    obtain fw' where "fw_trace eng fw' (drop (5 * r) es)" "fw_x2 fw' = fw_x2 fw + r"
      "length (fw_h2 fw') = length (fw_h2 fw)"
      by blast
    then show "\<exists>fw'. fw_x2 fw' = r \<and> length (fw_h2 fw') = 5
      \<and> fw_trace eng fw' (drop (5 * r) es)"
      using l x by (intro exI[of _ fw']) simp
  qed
  have one: "\<And>r. r < n \<Longrightarrow> drop (5 * r) es
      = fw_call es r 0 # fw_call es r 1 # fw_call es r 2 # fw_call es r 3 # fw_call es r 4
        # drop (5 * (r + 1)) es"
  proof -
    fix r assume "r < n"
    then have "5 * r + 5 \<le> length es" using n by simp
    have e: "5 * (r + 1) = 5 * r + 5" by simp
    from drop_block[OF \<open>5 * r + 5 \<le> length es\<close>] show "drop (5 * r) es
      = fw_call es r 0 # fw_call es r 1 # fw_call es r 2 # fw_call es r 3 # fw_call es r 4
        # drop (5 * (r + 1)) es"
      unfolding fw_call_def e by simp
  qed
  have idx: "\<And>r. r < n \<Longrightarrow> map call_lane (round_calls es r) = [1, 2, 3, 4]
      \<and> map call_index (round_calls es r) = [r mod 5, (r + 1) mod 5, (r + 2) mod 5, (r + 3) mod 5]"
  proof -
    fix r assume r: "r < n"
    obtain fw' where f: "fw_x2 fw' = r" "fw_trace eng fw' (drop (5 * r) es)"
      using blk[OF r] by blast
    show "map call_lane (round_calls es r) = [1, 2, 3, 4]
      \<and> map call_index (round_calls es r) = [r mod 5, (r + 1) mod 5, (r + 2) mod 5, (r + 3) mod 5]"
      using fw_trace_block[OF f(2)[unfolded one[OF r]]] unfolding f(1) round_calls_def
      by blast
  qed
  have dist: "\<And>r. r < n \<Longrightarrow> distinct (map call_index (round_calls es r)) = True"
  proof -
    fix r assume r: "r < n"
    have "distinct [r mod 5, (r + 1) mod 5, (r + 2) mod 5, (r + 3) mod 5]"
      using mod5_distinct[of r] by simp
    then show "distinct (map call_index (round_calls es r)) = True"
      using idx[OF r] by simp
  qed
  have two: "\<And>r. r < n - 1 \<Longrightarrow> call_hash_in (fw_call es (r + 1) 1) = call_hash (fw_call es r 2)
      \<and> call_hash_in (fw_call es (r + 1) 2) = call_hash (fw_call es r 3)
      \<and> call_hash_in (fw_call es (r + 1) 3) = call_hash (fw_call es r 4)"
  proof -
    fix r assume r: "r < n - 1"
    then have r0: "r < n" and r1: "r + 1 < n" by simp_all
    obtain fw' where f: "length (fw_h2 fw') = 5" "fw_trace eng fw' (drop (5 * r) es)"
      using blk[OF r0] by blast
    show "call_hash_in (fw_call es (r + 1) 1) = call_hash (fw_call es r 2)
      \<and> call_hash_in (fw_call es (r + 1) 2) = call_hash (fw_call es r 3)
      \<and> call_hash_in (fw_call es (r + 1) 3) = call_hash (fw_call es r 4)"
      by (rule fw_two_blocks[OF f(2)[unfolded one[OF r0] one[OF r1]] f(1)])
  qed
  have three: "\<And>r. r < n - 2 \<Longrightarrow> call_hash_in (fw_call es (r + 2) 4) = call_hash (fw_call es r 1)"
  proof -
    fix r assume r: "r < n - 2"
    then have r0: "r < n" and r1: "r + 1 < n" and r2: "r + 1 + 1 < n" by simp_all
    have e: "r + 1 + 1 = r + 2" by simp
    obtain fw' where f: "length (fw_h2 fw') = 5" "fw_trace eng fw' (drop (5 * r) es)"
      using blk[OF r0] by blast
    show "call_hash_in (fw_call es (r + 2) 4) = call_hash (fw_call es r 1)"
      using fw_three_blocks[OF f(2)[unfolded one[OF r0] one[OF r1] one[OF r2]] f(1)]
      unfolding e by simp
  qed
  have a1: "map (\<lambda>r. map call_lane (round_calls es r)) [0..<n] = replicate n [1, 2, 3, 4]"
    by (rule map_upt_const) (use idx in blast)
  have a2: "map (\<lambda>r. map call_index (round_calls es r)) [0..<n]
       = map (\<lambda>r. [r mod 5, (r + 1) mod 5, (r + 2) mod 5, (r + 3) mod 5]) [0..<n]"
    by (rule map_upt_eq) (use idx in blast)
  have a3: "map (\<lambda>r. distinct (map call_index (round_calls es r))) [0..<n] = replicate n True"
    by (rule map_upt_const) (rule dist)
  have a4: "map (\<lambda>r. call_hash_in (fw_call es (r + 1) 1)) [0..<n - 1]
       = map (\<lambda>r. call_hash (fw_call es r 2)) [0..<n - 1]"
    by (rule map_upt_eq) (use two in blast)
  have a5: "map (\<lambda>r. call_hash_in (fw_call es (r + 1) 2)) [0..<n - 1]
       = map (\<lambda>r. call_hash (fw_call es r 3)) [0..<n - 1]"
    by (rule map_upt_eq) (use two in blast)
  have a6: "map (\<lambda>r. call_hash_in (fw_call es (r + 1) 3)) [0..<n - 1]
       = map (\<lambda>r. call_hash (fw_call es r 4)) [0..<n - 1]"
    by (rule map_upt_eq) (use two in blast)
  have a7: "map (\<lambda>r. call_hash_in (fw_call es (r + 2) 4)) [0..<n - 2]
       = map (\<lambda>r. call_hash (fw_call es r 1)) [0..<n - 2]"
    by (rule map_upt_eq) (use three in blast)
  show ?thesis unfolding shared_array_def by (intro conjI) (rule a1 a2 a3 a4 a5 a6 a7)+
qed

text \<open>
  Claim C10. In Variant B the four firewall cores are not state-disjoint. In both runs
  the rounds form a trace of the firewall cores from the all-zero state, in which the
  four cores read and write one array \<^verbatim>\<open>h2\<close> of five words: in round \<open>r\<close> the core of
  lane \<open>k\<close> reads element \<open>(r + k - 1) mod 5\<close> and replaces it by the hash word it
  returns. Within a round the four elements are distinct, and the hash word that the
  core of lane 2, 3 or 4 writes in a round is read (and then replaced) by the core of
  lane 1, 2 or 3 in the next round, the hash word that the core of lane 1 writes by
  the core of lane 4 two rounds later.
\<close>

theorem firewall_shared_array:
  assumes "0 < bits" and "0 < hc" and "hci \<le> length hcv" and "ivlen \<le> length iv"
  shows "\<exists>obs clog cons slog.
      t642_calc bits hci ivlen seed_i hcv iv hc fc num_obs = Some (obs, clog)
    \<and> t642_sat bits hci ivlen iv hc fc num_obs obs = Some (cons, slog)
    \<and> length (drop (2 * hc + 6) clog) = 5 * (fc + num_obs)
    \<and> length (drop (2 * hc + 6) slog) = 5 * (fc + num_obs)
    \<and> fw_trace (calc_engine bits) ((0, 0), (0, 0), (0, 0), (0, 0), [0, 0, 0, 0, 0], 0)
         (drop (2 * hc + 6) clog)
    \<and> fw_trace (sat_engine bits)
         ((inibits bits 0, inibits bits 0), (inibits bits 0, inibits bits 0),
          (inibits bits 0, inibits bits 0), (inibits bits 0, inibits bits 0),
          [inibits bits 0, inibits bits 0, inibits bits 0, inibits bits 0, inibits bits 0], 0)
         (drop (2 * hc + 6) slog)
    \<and> shared_array (drop (2 * hc + 6) clog) (fc + num_obs)
    \<and> shared_array (drop (2 * hc + 6) slog) (fc + num_obs)"
proof -
  obtain obs clog where c: "t642_calc bits hci ivlen seed_i hcv iv hc fc num_obs = Some (obs, clog)"
    "length clog = 2 * hc + 6 + 5 * (fc + num_obs)"
    "fw_trace (calc_engine bits) ((0, 0), (0, 0), (0, 0), (0, 0), [0, 0, 0, 0, 0], 0)
         (drop (2 * hc + 6) clog)"
    "length obs = 4 * num_obs"
    using t642_calc_run[OF assms(2,3,4), of bits seed_i fc num_obs] by blast
  have nb: "4 * num_obs \<le> length obs" using c(4) by simp
  obtain cons slog where s: "t642_sat bits hci ivlen iv hc fc num_obs obs = Some (cons, slog)"
    "length slog = 2 * hc + 6 + 5 * (fc + num_obs)"
    "fw_trace (sat_engine bits)
         ((inibits bits 0, inibits bits 0), (inibits bits 0, inibits bits 0),
          (inibits bits 0, inibits bits 0), (inibits bits 0, inibits bits 0),
          [inibits bits 0, inibits bits 0, inibits bits 0, inibits bits 0, inibits bits 0], 0)
         (drop (2 * hc + 6) slog)"
    using t642_sat_run[OF assms(1,2,4) nb, of hci fc] by blast
  have lc: "length (drop (2 * hc + 6) clog) = 5 * (fc + num_obs)" using c(2) by simp
  have ls: "length (drop (2 * hc + 6) slog) = 5 * (fc + num_obs)" using s(2) by simp
  have sc: "shared_array (drop (2 * hc + 6) clog) (fc + num_obs)"
    by (rule fw_trace_shared[OF c(3) _ _ lc]) (simp_all add: fw_h2_def fw_x2_def)
  have ss: "shared_array (drop (2 * hc + 6) slog) (fc + num_obs)"
    by (rule fw_trace_shared[OF s(3) _ _ ls]) (simp_all add: fw_h2_def fw_x2_def)
  show ?thesis
    by (intro exI[of _ obs] exI[of _ clog] exI[of _ cons] exI[of _ slog] conjI)
       (rule c(1) s(1) lc ls c(3) s(3) sc ss)+
qed

theorem firewall_shared_array_witness:
  "\<exists>obs clog cons slog.
      t642_calc 6 2 1 4 [13, 4] [3] 2 2 1 = Some (obs, clog)
    \<and> t642_sat 6 2 1 [3] 2 2 1 obs = Some (cons, slog)
    \<and> length (drop (2 * 2 + 6) clog) = 5 * (2 + 1)
    \<and> length (drop (2 * 2 + 6) slog) = 5 * (2 + 1)
    \<and> fw_trace (calc_engine 6) ((0, 0), (0, 0), (0, 0), (0, 0), [0, 0, 0, 0, 0], 0)
         (drop (2 * 2 + 6) clog)
    \<and> fw_trace (sat_engine 6)
         ((inibits 6 0, inibits 6 0), (inibits 6 0, inibits 6 0),
          (inibits 6 0, inibits 6 0), (inibits 6 0, inibits 6 0),
          [inibits 6 0, inibits 6 0, inibits 6 0, inibits 6 0, inibits 6 0], 0)
         (drop (2 * 2 + 6) slog)
    \<and> shared_array (drop (2 * 2 + 6) clog) (2 + 1)
    \<and> shared_array (drop (2 * 2 + 6) slog) (2 + 1)"
proof -
  have a: "(0::nat) < 6" and b: "(0::nat) < 2" and c: "(2::nat) \<le> length [13::int, 4]"
    and d: "(1::nat) \<le> length [3::int]"
    by simp_all
  show ?thesis by (rule firewall_shared_array[OF a b c d])
qed

section \<open>The nonce injection of Variant B\<close>

lemma mix_mirror:
  assumes s: "mix (sat_engine bits) sv w = Some sv'"
    and c: "mix (calc_engine bits) c w = Some c'"
    and l: "length sv = bits" and d: "decode m sv = c"
  shows "length sv' = bits \<and> decode m sv' = c'"
proof (cases w)
  case None
  then show ?thesis using s c l d by (simp add: mix_def)
next
  case (Some u)
  have x: "xor_bv sv (inibits bits u) = Some sv'"
    using s Some by (simp add: mix_def sat_engine_def)
  have c': "c' = c XOR (u mod 2 ^ bits)"
    using c Some by (simp add: mix_def calc_engine_def and_bmask)
  have "length sv = length (inibits bits u)" using l by (simp add: length_inibits)
  from xor_bv_Some[OF this, of m] x
  have "length sv' = length sv" and "decode m sv' = decode m sv XOR decode m (inibits bits u)"
    by simp_all
  then show ?thesis using l d c' by (simp add: decode_inibits)
qed

lemma step_mirror:
  assumes ev: "even bits" and pos: "0 < bits"
    and ss: "step_ok (prvhash_core_sat bits) se" and sc: "step_ok (calc_core bits) ce"
    and ls: "length (call_seed_in se) = bits" and ll: "length (call_lcg_in se) = bits"
    and lh: "length (call_hash_in se) = bits"
    and ds: "decode m (call_seed_in se) = call_seed_in ce"
    and dl: "decode m (call_lcg_in se) = call_lcg_in ce"
    and dh: "decode m (call_hash_in se) = call_hash_in ce"
  shows "length (call_seed se) = bits \<and> length (call_lcg se) = bits
      \<and> length (call_hash se) = bits \<and> length (call_out se) = bits
      \<and> decode m (call_seed se) = call_seed ce \<and> decode m (call_lcg se) = call_lcg ce
      \<and> decode m (call_hash se) = call_hash ce \<and> decode m (call_out se) = call_out ce"
proof -
  obtain s l hw out where
    r: "prvhash_core_sat bits (call_seed_in se) (call_lcg_in se) (call_hash_in se)
          = Some (s, l, hw, out)"
    and len: "length s = bits" "length l = bits" "length hw = bits" "length out = bits"
    and dec: "(decode m s, decode m l, decode m hw, decode m out)
          = prvhash_core_calc bits (decode m (call_seed_in se)) (decode m (call_lcg_in se))
              (decode m (call_hash_in se))"
    using sat_step_decode[OF ev pos ls ll lh, of m] by blast
  have e: "s = call_seed se" "l = call_lcg se" "hw = call_hash se" "out = call_out se"
    using ss r by (simp_all add: step_ok_def call_result_def)
  have c: "prvhash_core_calc bits (call_seed_in ce) (call_lcg_in ce) (call_hash_in ce)
      = (call_seed ce, call_lcg ce, call_hash ce, call_out ce)"
    using sc by (simp add: step_ok_def call_result_def calc_core_def)
  show ?thesis
    using len dec unfolding e ds dl dh c by simp
qed

lemma main_trace_mirror:
  assumes ev: "even bits" and pos: "0 < bits"
  shows "main_trace (sat_engine bits) ws (sv, lv, hv) ses \<Longrightarrow>
    main_trace (calc_engine bits) ws (s, l, h) ces \<Longrightarrow>
    map call_index ses = map call_index ces \<Longrightarrow>
    length sv = bits \<Longrightarrow> decode m sv = s \<Longrightarrow> length lv = bits \<Longrightarrow> decode m lv = l \<Longrightarrow>
    list_all2 (\<lambda>v c. length v = bits \<and> decode m v = c) hv h \<Longrightarrow>
    map (map_call (decode m)) ses = ces"
proof (induction ses arbitrary: ws sv lv hv s l h ces)
  case Nil
  then show ?case by simp
next
  case (Cons se ses)
  obtain ce ces' where ces: "ces = ce # ces'" and ix: "call_index se = call_index ce"
    and ixs: "map call_index ses = map call_index ces'"
    using Cons.prems(3) by (cases ces) simp_all
  obtain w ws' where ws: "ws = w # ws'"
    using Cons.prems(1) by (cases ws) simp_all
  let ?i = "call_index ce"
  have st: "call_lane se = 0" "?i < length hv"
    "mix (sat_engine bits) sv w = Some (call_seed_in se)"
    "mix (sat_engine bits) lv w = Some (call_lcg_in se)"
    "call_hash_in se = hv ! ?i"
    "step_ok (prvhash_core_sat bits) se"
    "main_trace (sat_engine bits) ws' (call_seed se, call_lcg se, hv[?i := call_hash se]) ses"
    using Cons.prems(1) unfolding ws ix[symmetric] by (simp_all add: sat_engine_def)
  have ct: "call_lane ce = 0" "?i < length h"
    "mix (calc_engine bits) s w = Some (call_seed_in ce)"
    "mix (calc_engine bits) l w = Some (call_lcg_in ce)"
    "call_hash_in ce = h ! ?i"
    "step_ok (calc_core bits) ce"
    "main_trace (calc_engine bits) ws' (call_seed ce, call_lcg ce, h[?i := call_hash ce]) ces'"
    using Cons.prems(2) unfolding ws ces by (simp_all add: calc_engine_def)
  have rs: "length (call_seed_in se) = bits \<and> decode m (call_seed_in se) = call_seed_in ce"
    by (rule mix_mirror[OF st(3) ct(3) Cons.prems(4,5)])
  have rl: "length (call_lcg_in se) = bits \<and> decode m (call_lcg_in se) = call_lcg_in ce"
    by (rule mix_mirror[OF st(4) ct(4) Cons.prems(6,7)])
  have rh: "length (call_hash_in se) = bits \<and> decode m (call_hash_in se) = call_hash_in ce"
    unfolding st(5) ct(5) using list_all2_nthD[OF Cons.prems(8) st(2)] by simp
  have r: "length (call_seed se) = bits \<and> length (call_lcg se) = bits
      \<and> length (call_hash se) = bits \<and> length (call_out se) = bits
      \<and> decode m (call_seed se) = call_seed ce \<and> decode m (call_lcg se) = call_lcg ce
      \<and> decode m (call_hash se) = call_hash ce \<and> decode m (call_out se) = call_out ce"
    using step_mirror[OF ev pos st(6) ct(6), of m] rs rl rh by blast
  have hd: "map_call (decode m) se = ce"
    using r rs rl rh st(1) ct(1) ix by (cases se; cases ce) simp
  have h': "list_all2 (\<lambda>v c. length v = bits \<and> decode m v = c)
      (hv[?i := call_hash se]) (h[?i := call_hash ce])"
    using Cons.prems(8) r by (simp add: list_all2_update_cong)
  have r1: "length (call_seed se) = bits" and r2: "decode m (call_seed se) = call_seed ce"
    and r3: "length (call_lcg se) = bits" and r4: "decode m (call_lcg se) = call_lcg ce"
    using r by simp_all
  have tl: "map (map_call (decode m)) ses = ces'"
    by (rule Cons.IH[OF st(7) ct(7) ixs r1 r2 r3 r4 h'])
  show ?case using hd tl ces by simp
qed

lemma main_calls_index:
  "map call_index (main_calls log) = map snd (filter (\<lambda>p. fst p = 0) (map lane_index log))"
  by (induction log) (simp_all add: main_calls_def lane_index_def)

lemma list_all2_decode:
  assumes "map (decode m) hv = h" and "list_all (\<lambda>v. length v = bits) hv"
  shows "list_all2 (\<lambda>v c. length v = bits \<and> decode m v = c) hv h"
  using assms by (auto simp add: list_all2_conv_all_nth list_all_length)

lemma sat_h_init_lengths: "list_all (\<lambda>v. length v = bits) (sat_h_init bits hci hc first)"
  by (auto simp add: sat_h_init_def list_all_iff length_new_vars length_inibits)

lemma take_drop_schedule_B:
  "take hc (drop 5 (schedule_B hc fc num_obs)) = map (\<lambda>n. (0, n mod hc)) [0..<hc]"
proof -
  have "take hc [0..<2 * hc + 1] = [0..<hc]" by (simp add: take_upt)
  then have "take hc (map (\<lambda>n. (0::nat, n mod hc)) [0..<2 * hc + 1])
      = map (\<lambda>n. (0, n mod hc)) [0..<hc]"
    by (simp only: take_map)
  then show ?thesis by (simp add: schedule_B_def)
qed

text \<open>
  Claim C7. In the initialization pass of Variant B, the \<open>hc\<close> calls that follow the
  first five, the call of step \<open>i\<close> takes as \<^verbatim>\<open>seed\<close> and \<^verbatim>\<open>lcg\<close> the results of the
  previous call, both mixed by exclusive or with the nonce word of the step: the word
  \<^verbatim>\<open>iv[i div 2]\<close> on the odd steps while \<open>i div 2 < ivlen\<close>, none on the other steps. So
  one word is injected every other step, in order, until \<^verbatim>\<open>ivlen\<close> words are consumed.
  The symbolic run injects the constants of the same words at the same steps, and it
  mirrors the concrete run: under every assignment that decodes the symbolic initial
  \<^verbatim>\<open>seed\<close> and hash array to the concrete ones, every call of the main core in the
  symbolic run, of the pass and of the rest of the run, decodes to the corresponding
  call of the concrete run.
\<close>

theorem nonce_injection:
  assumes "even bits" and "0 < bits" and "0 < hc" and "hci \<le> length hcv"
    and "ivlen \<le> length iv"
    and "decode m (new_vars 0 bits) = seed_i AND bmask bits"
    and "map (decode m) (sat_h_init bits hci hc bits)
           = map (\<lambda>i. if i < hci then hcv ! i AND bmask bits else 0) [0..<hc]"
  shows "\<exists>obs clog cons slog.
      t642_calc bits hci ivlen seed_i hcv iv hc fc num_obs = Some (obs, clog)
    \<and> t642_sat bits hci ivlen iv hc fc num_obs obs = Some (cons, slog)
    \<and> map lane_index (take hc (drop 5 clog)) = map (\<lambda>n. (0, n mod hc)) [0..<hc]
    \<and> map lane_index (take hc (drop 5 slog)) = map (\<lambda>n. (0, n mod hc)) [0..<hc]
    \<and> iv_trace (calc_engine bits) ivlen iv 0 (call_seed (clog ! 4)) (call_lcg (clog ! 4))
         (take hc (drop 5 clog))
    \<and> iv_trace (sat_engine bits) ivlen iv 0 (call_seed (slog ! 4)) (call_lcg (slog ! 4))
         (take hc (drop 5 slog))
    \<and> main_trace (calc_engine bits)
         (replicate 5 None @ map (nonce_word ivlen iv) [0..<hc]
            @ replicate (hc + 1) None @ replicate (fc + num_obs) None)
         (seed_i AND bmask bits, 0,
          map (\<lambda>i. if i < hci then hcv ! i AND bmask bits else 0) [0..<hc])
         (main_calls clog)
    \<and> main_trace (sat_engine bits)
         (replicate 5 None @ map (nonce_word ivlen iv) [0..<hc]
            @ replicate (hc + 1) None @ replicate (fc + num_obs) None)
         (new_vars 0 bits, inibits bits 0, sat_h_init bits hci hc bits)
         (main_calls slog)
    \<and> map (map_call (decode m)) (main_calls slog) = main_calls clog"
proof -
  obtain obs clog where c: "t642_calc bits hci ivlen seed_i hcv iv hc fc num_obs = Some (obs, clog)"
    "map lane_index clog = schedule_B hc fc num_obs"
    "iv_trace (calc_engine bits) ivlen iv 0 (call_seed (clog ! 4)) (call_lcg (clog ! 4))
         (take hc (drop 5 clog))"
    "length obs = 4 * num_obs"
    using t642_calc_run[OF assms(3,4,5), of bits seed_i fc num_obs] by blast
  have nb: "4 * num_obs \<le> length obs" using c(4) by simp
  obtain cons slog where s: "t642_sat bits hci ivlen iv hc fc num_obs obs = Some (cons, slog)"
    "map lane_index slog = schedule_B hc fc num_obs"
    "iv_trace (sat_engine bits) ivlen iv 0 (call_seed (slog ! 4)) (call_lcg (slog ! 4))
         (take hc (drop 5 slog))"
    using t642_sat_run[OF assms(2,3,5) nb, of hci fc] by blast
  have pc: "map lane_index (take hc (drop 5 clog)) = map (\<lambda>n. (0, n mod hc)) [0..<hc]"
    unfolding take_map[symmetric] drop_map[symmetric] c(2) by (rule take_drop_schedule_B)
  have ps: "map lane_index (take hc (drop 5 slog)) = map (\<lambda>n. (0, n mod hc)) [0..<hc]"
    unfolding take_map[symmetric] drop_map[symmetric] s(2) by (rule take_drop_schedule_B)
  note tc = t642_calc_trace[OF c(1) assms(4)]
  note ts = t642_sat_trace[OF s(1)]
  have ix: "map call_index (main_calls slog) = map call_index (main_calls clog)"
    unfolding main_calls_index c(2) s(2) by (rule refl)
  have l1: "length (new_vars 0 bits) = bits" by (rule length_new_vars)
  have l2: "length (inibits bits 0) = bits" by (rule length_inibits)
  have d2: "decode m (inibits bits 0) = 0" by (simp add: decode_inibits)
  have hr: "list_all2 (\<lambda>v c. length v = bits \<and> decode m v = c) (sat_h_init bits hci hc bits)
      (map (\<lambda>i. if i < hci then hcv ! i AND bmask bits else 0) [0..<hc])"
    by (rule list_all2_decode[OF assms(7) sat_h_init_lengths])
  have mir: "map (map_call (decode m)) (main_calls slog) = main_calls clog"
    by (rule main_trace_mirror[OF assms(1,2) ts tc ix l1 assms(6) l2 d2 hr])
  show ?thesis
    by (intro exI[of _ obs] exI[of _ clog] exI[of _ cons] exI[of _ slog] conjI)
       (rule c(1) s(1) pc ps c(3) s(3) tc ts mir)+
qed

theorem nonce_injection_witness:
  "\<exists>obs clog cons slog.
      t642_calc 6 2 2 4 [13, 4] [3, 5] 6 1 1 = Some (obs, clog)
    \<and> t642_sat 6 2 2 [3, 5] 6 1 1 obs = Some (cons, slog)
    \<and> map lane_index (take 6 (drop 5 clog)) = map (\<lambda>n. (0, n mod 6)) [0..<6]
    \<and> map lane_index (take 6 (drop 5 slog)) = map (\<lambda>n. (0, n mod 6)) [0..<6]
    \<and> iv_trace (calc_engine 6) 2 [3, 5] 0 (call_seed (clog ! 4)) (call_lcg (clog ! 4))
         (take 6 (drop 5 clog))
    \<and> iv_trace (sat_engine 6) 2 [3, 5] 0 (call_seed (slog ! 4)) (call_lcg (slog ! 4))
         (take 6 (drop 5 slog))
    \<and> main_trace (calc_engine 6)
         (replicate 5 None @ map (nonce_word 2 [3, 5]) [0..<6]
            @ replicate (6 + 1) None @ replicate (1 + 1) None)
         (4 AND bmask 6, 0,
          map (\<lambda>i. if i < 2 then [13, 4] ! i AND bmask 6 else 0) [0..<6])
         (main_calls clog)
    \<and> main_trace (sat_engine 6)
         (replicate 5 None @ map (nonce_word 2 [3, 5]) [0..<6]
            @ replicate (6 + 1) None @ replicate (1 + 1) None)
         (new_vars 0 6, inibits 6 0, sat_h_init 6 2 6 6)
         (main_calls slog)
    \<and> map (map_call (decode (\<lambda>n. n = 2 \<or> n = 6 \<or> n = 8 \<or> n = 9 \<or> n = 14))) (main_calls slog) = main_calls clog"
proof -
  have a: "even (6::nat)" and b: "(0::nat) < 6" and c: "(2::nat) \<le> length [13::int, 4]"
    and d: "(2::nat) \<le> length [3::int, 5]"
    by simp_all
  have e: "decode (\<lambda>n. n = 2 \<or> n = 6 \<or> n = 8 \<or> n = 9 \<or> n = 14) (new_vars 0 6) = 4 AND bmask 6"
    by code_simp
  have f: "map (decode (\<lambda>n. n = 2 \<or> n = 6 \<or> n = 8 \<or> n = 9 \<or> n = 14)) (sat_h_init 6 2 6 6)
      = map (\<lambda>i. if i < 2 then [13, 4] ! i AND bmask 6 else 0) [0..<6]"
    by code_simp
  show ?thesis by (rule nonce_injection[OF a b b c d e f])
qed

end
